theory Spec2Isabelle
  imports Complex_Main
begin

unbundle bit_operations_syntax

section \<open>Arrays, indices and errors\<close>

text \<open>
  The tableau of \<^verbatim>\<open>clifford_operations.py\<close> is a two-dimensional numpy array.  It is
  embedded as the list of its rows; the entries are integers (the code combines them with
  \<^verbatim>\<open>^\<close>, \<^verbatim>\<open>*\<close>, \<^verbatim>\<open>-\<close> and \<^verbatim>\<open>% 4\<close>), and a binary tableau is one whose entries are
  0 or 1.  A qubit index is a Python integer, so it may be negative; numpy counts a negative
  index from the end of the axis and raises \<^verbatim>\<open>IndexError\<close> outside \<open>[-len, len)\<close>.
\<close>

type_synonym tableau = "int list list"

datatype error = IndexError | KeyError | TypeError | ValueError

definition ncols :: "tableau \<Rightarrow> nat" where
  "ncols t = (case t of [] \<Rightarrow> 0 | r # _ \<Rightarrow> length r)"

definition norm_index :: "nat \<Rightarrow> int \<Rightarrow> error + nat" where
  "norm_index len k =
     (if 0 \<le> k \<and> k < int len then Inr (nat k)
      else if - int len \<le> k \<and> k < 0 then Inr (nat (int len + k))
      else Inl IndexError)"

definition tableau_ok :: "nat \<Rightarrow> tableau \<Rightarrow> bool" where
  "tableau_ok n t \<longleftrightarrow> length t = 2 * n + 1 \<and> list_all (\<lambda>r. length r = 2 * n + 1) t"

definition bits :: "tableau \<Rightarrow> bool" where
  "bits t \<longleftrightarrow> list_all (list_all (\<lambda>v. v = 0 \<or> v = 1)) t"

text \<open>Sequencing of steps that may raise: the first error ends the call.\<close>

definition then_do :: "error + 'a \<Rightarrow> ('a \<Rightarrow> error + 'b) \<Rightarrow> error + 'b" where
  "then_do m f = (case m of Inl e \<Rightarrow> Inl e | Inr v \<Rightarrow> f v)"

text \<open>Elementwise \<^verbatim>\<open>^\<close> and \<^verbatim>\<open>*\<close> of two one-dimensional arrays of the same length.\<close>

definition vxor :: "int list \<Rightarrow> int list \<Rightarrow> int list" where
  "vxor a b = map2 (\<lambda>u v. u XOR v) a b"

definition vmul :: "int list \<Rightarrow> int list \<Rightarrow> int list" where
  "vmul a b = map2 (\<lambda>u v. u * v) a b"

text \<open>\<^verbatim>\<open>view[:, k]\<close> on a view with \<open>w\<close> columns.\<close>

definition column :: "tableau \<Rightarrow> nat \<Rightarrow> int \<Rightarrow> error + int list" where
  "column view w k = then_do (norm_index w k) (\<lambda>j. Inr (map (\<lambda>r. r ! j) view))"

text \<open>\<^verbatim>\<open>tableau[:-1, j] = vals\<close>: column \<open>j\<close> of every row but the last.\<close>

definition set_column :: "tableau \<Rightarrow> nat \<Rightarrow> int list \<Rightarrow> tableau" where
  "set_column t j vals =
     (if t = [] then [] else map2 (\<lambda>r v. r[j := v]) (butlast t) vals @ [last t])"

section \<open>The accessors\<close>

text \<open>
  \<^verbatim>\<open>tableau[: -1 + (2 * nqubits + 2) * int(include_scratch), ...]\<close>: the stop of the row
  slice is \<open>-1\<close> (all rows but the last) without the scratch row and \<open>2 * nqubits + 1\<close> with it.
\<close>

definition row_slice :: "tableau \<Rightarrow> nat \<Rightarrow> bool \<Rightarrow> tableau" where
  "row_slice t nqubits include_scratch =
     (if include_scratch then take (2 * nqubits + 1) t else butlast t)"

definition get_r :: "tableau \<Rightarrow> nat \<Rightarrow> bool \<Rightarrow> error + int list" where
  "get_r t nqubits include_scratch =
     (if ncols t = 0 then Inl IndexError
      else Inr (map last (row_slice t nqubits include_scratch)))"

definition set_r :: "tableau \<Rightarrow> int list \<Rightarrow> error + tableau" where
  "set_r t val =
     (if ncols t = 0 then Inl IndexError else Inr (set_column t (ncols t - 1) val))"

definition get_x :: "tableau \<Rightarrow> nat \<Rightarrow> bool \<Rightarrow> tableau" where
  "get_x t nqubits include_scratch = map (take nqubits) (row_slice t nqubits include_scratch)"

definition get_z :: "tableau \<Rightarrow> nat \<Rightarrow> bool \<Rightarrow> tableau" where
  "get_z t nqubits include_scratch =
     map (\<lambda>r. butlast (drop nqubits r)) (row_slice t nqubits include_scratch)"

text \<open>The number of columns of the two views, taken from the shape of the tableau.\<close>

definition x_width :: "tableau \<Rightarrow> nat \<Rightarrow> nat" where
  "x_width t nqubits = min nqubits (ncols t)"

definition z_width :: "tableau \<Rightarrow> nat \<Rightarrow> nat" where
  "z_width t nqubits = ncols t - 1 - nqubits"

section \<open>The gates\<close>

text \<open>\<^verbatim>\<open>new_tab[:, [a, b]] = new_tab[:, [b, a]]\<close>: the right-hand side is a copy.\<close>

definition swap_columns :: "tableau \<Rightarrow> nat \<Rightarrow> nat \<Rightarrow> tableau" where
  "swap_columns t a b = map (\<lambda>r. r[a := r ! b, b := r ! a]) t"

definition H :: "tableau \<Rightarrow> int \<Rightarrow> nat \<Rightarrow> error + tableau" where
  "H tableau q nqubits =
     then_do (get_r tableau nqubits False) (\<lambda>r.
     then_do (column (get_x tableau nqubits False) (x_width tableau nqubits) q) (\<lambda>xq.
     then_do (column (get_z tableau nqubits False) (z_width tableau nqubits) q) (\<lambda>zq.
     then_do (set_r tableau (vxor r (vmul xq zq))) (\<lambda>new_tab.
     then_do (norm_index (ncols new_tab) (int nqubits + q)) (\<lambda>b.
     then_do (norm_index (ncols new_tab) q) (\<lambda>a.
     Inr (swap_columns new_tab a b)))))))"

text \<open>
  \<^verbatim>\<open>CNOT\<close>: \<^verbatim>\<open>x\<close> and \<^verbatim>\<open>z\<close> are views of \<^verbatim>\<open>new_tab\<close>, so each read of them sees the
  writes made before it; the column written by \<^verbatim>\<open>new_tab[:-1, target_q]\<close> is counted on
  the whole tableau, the column read by \<^verbatim>\<open>x[:, target_q]\<close> on the view.
\<close>

definition CNOT :: "tableau \<Rightarrow> int \<Rightarrow> int \<Rightarrow> nat \<Rightarrow> error + tableau" where
  "CNOT tableau control_q target_q nqubits =
     then_do (get_r tableau nqubits False) (\<lambda>r.
     then_do (column (get_x tableau nqubits False) (x_width tableau nqubits) control_q) (\<lambda>xc.
     then_do (column (get_z tableau nqubits False) (z_width tableau nqubits) target_q) (\<lambda>zt.
     then_do (column (get_x tableau nqubits False) (x_width tableau nqubits) target_q) (\<lambda>xt.
     then_do (column (get_z tableau nqubits False) (z_width tableau nqubits) control_q) (\<lambda>zc.
     then_do (set_r tableau (vxor r (vmul (vmul xc zt) (map (\<lambda>v. v XOR 1) (vxor xt zc))))) (\<lambda>tab1.
     then_do (column (get_x tab1 nqubits False) (x_width tab1 nqubits) target_q) (\<lambda>xt1.
     then_do (column (get_x tab1 nqubits False) (x_width tab1 nqubits) control_q) (\<lambda>xc1.
     then_do (norm_index (ncols tab1) target_q) (\<lambda>jt.
     then_do (Inr (set_column tab1 jt (vxor xt1 xc1))) (\<lambda>tab2.
     then_do (column (get_z tab2 nqubits False) (z_width tab2 nqubits) control_q) (\<lambda>zc2.
     then_do (column (get_z tab2 nqubits False) (z_width tab2 nqubits) target_q) (\<lambda>zt2.
     then_do (norm_index (ncols tab2) (int nqubits + control_q)) (\<lambda>jc.
     Inr (set_column tab2 jc (vxor zc2 zt2)))))))))))))))"

definition S :: "tableau \<Rightarrow> int \<Rightarrow> nat \<Rightarrow> error + tableau" where
  "S tableau q nqubits =
     then_do (get_r tableau nqubits False) (\<lambda>r.
     then_do (column (get_x tableau nqubits False) (x_width tableau nqubits) q) (\<lambda>xq.
     then_do (column (get_z tableau nqubits False) (z_width tableau nqubits) q) (\<lambda>zq.
     then_do (set_r tableau (vxor r (vmul xq zq))) (\<lambda>new_tab.
     then_do (column (get_z tableau nqubits False) (z_width tableau nqubits) q) (\<lambda>zq'.
     then_do (column (get_x tableau nqubits False) (x_width tableau nqubits) q) (\<lambda>xq'.
     then_do (norm_index (ncols new_tab) (int nqubits + q)) (\<lambda>j.
     Inr (set_column new_tab j (vxor zq' xq')))))))))"

section \<open>Exponent and rowsum\<close>

text \<open>\<^verbatim>\<open>exponent\<close> falls off the end of its \<^verbatim>\<open>elif\<close> chains, that is returns \<^verbatim>\<open>None\<close>,
  when \<open>x1\<close> is neither 0 nor 1.\<close>

definition exponent :: "int \<Rightarrow> int \<Rightarrow> int \<Rightarrow> int \<Rightarrow> int option" where
  "exponent x1 z1 x2 z2 =
     (if x1 = z1 then
        (if x1 = 0 then Some 0
         else if x1 = 1 then Some (z2 - x2)
         else None)
      else
        (if x1 = 1 then Some (z2 * (2 * x2 - 1))
         else if x1 = 0 then Some (x2 * (1 - 2 * z2))
         else None))"

text \<open>\<^verbatim>\<open>view[a, b]\<close> on a view with \<open>rows\<close> rows and \<open>cols\<close> columns.\<close>

definition entry :: "tableau \<Rightarrow> nat \<Rightarrow> nat \<Rightarrow> int \<Rightarrow> int \<Rightarrow> error + int" where
  "entry view rows cols a b =
     then_do (norm_index rows a) (\<lambda>i.
     then_do (norm_index cols b) (\<lambda>j. Inr (view ! i ! j)))"

text \<open>\<^verbatim>\<open>view[a, :]\<close>.\<close>

definition row_at :: "tableau \<Rightarrow> int \<Rightarrow> error + int list" where
  "row_at view a = then_do (norm_index (length view) a) (\<lambda>i. Inr (view ! i))"

text \<open>A sequence of steps, stopped by the first one that raises.\<close>

fun collect :: "(error + 'a) list \<Rightarrow> error + 'a list" where
  "collect [] = Inr []"
| "collect (m # ms) = then_do m (\<lambda>v. then_do (collect ms) (\<lambda>vs. Inr (v # vs)))"

text \<open>\<^verbatim>\<open>np.sum(exponents)\<close>: a \<^verbatim>\<open>None\<close> in the list is a \<^verbatim>\<open>TypeError\<close>.\<close>

definition np_sum :: "int option list \<Rightarrow> error + int" where
  "np_sum es = (if None \<in> set es then Inl TypeError else Inr (sum_list (map the es)))"

definition rowsum :: "tableau \<Rightarrow> int \<Rightarrow> int \<Rightarrow> nat \<Rightarrow> bool \<Rightarrow> error + tableau" where
  "rowsum tableau h i nqubits include_scratch =
     (let x = get_x tableau nqubits include_scratch;
          z = get_z tableau nqubits include_scratch;
          xw = x_width tableau nqubits;
          zw = z_width tableau nqubits
      in
     then_do (collect (map (\<lambda>j.
         then_do (entry x (length x) xw i (int j)) (\<lambda>x1.
         then_do (entry x (length x) xw h (int j)) (\<lambda>x2.
         then_do (entry z (length z) zw i (int j)) (\<lambda>z1.
         then_do (entry z (length z) zw h (int j)) (\<lambda>z2.
         Inr (exponent x1 z1 x2 z2))))))
       [0..<nqubits])) (\<lambda>exponents.
     then_do (entry tableau (length tableau) (ncols tableau) h (- 1)) (\<lambda>rh.
     then_do (entry tableau (length tableau) (ncols tableau) i (- 1)) (\<lambda>ri.
     then_do (np_sum exponents) (\<lambda>total.
     then_do (norm_index (length tableau) h) (\<lambda>hh.
     then_do (Inr (tableau[hh := (tableau ! hh)[ncols tableau - 1 :=
                 (if (2 * rh + 2 * ri + total) mod 4 = 0 then 0 else 1)]])) (\<lambda>tab1.
     then_do (row_at (get_x tab1 nqubits include_scratch) i) (\<lambda>xi.
     then_do (row_at (get_x tab1 nqubits include_scratch) h) (\<lambda>xh.
     then_do (Inr (tab1[hh := vxor xi xh @ drop (length (vxor xi xh)) (tab1 ! hh)])) (\<lambda>tab2.
     then_do (row_at (get_z tab2 nqubits include_scratch) i) (\<lambda>zi.
     then_do (row_at (get_z tab2 nqubits include_scratch) h) (\<lambda>zh.
     Inr (tab2[hh := take nqubits (tab2 ! hh) @ vxor zi zh
                       @ drop (nqubits + length (vxor zi zh)) (tab2 ! hh)])))))))))))))"

section \<open>Measurement\<close>

text \<open>
  \<^verbatim>\<open>M\<close> works on the array object bound to \<^verbatim>\<open>state_copy\<close>.  With \<^verbatim>\<open>collapse\<close> this is
  the caller's own array, otherwise a copy of it; every \<^verbatim>\<open>rowsum\<close> returns a fresh array,
  to which \<^verbatim>\<open>state_copy\<close> is bound anew, while the item assignments write into the array
  that \<^verbatim>\<open>state_copy\<close> is bound to at that moment.  The store lists the array objects by
  address; address 0 is the caller's array.
\<close>

type_synonym store = "tableau list"

text \<open>\<^verbatim>\<open>v.nonzero()[0]\<close>: the positions of the entries that are not zero, ascending.\<close>

definition nonzero :: "int list \<Rightarrow> nat list" where
  "nonzero v = filter (\<lambda>k. v ! k \<noteq> 0) [0..<length v]"

text \<open>\<^verbatim>\<open>for i in ...: if i != p: state_copy = self.rowsum(state_copy, i.item(), p, nqubits)\<close>\<close>

fun eliminate :: "nat \<Rightarrow> nat \<Rightarrow> store \<Rightarrow> nat \<Rightarrow> nat list \<Rightarrow> error + store \<times> nat" where
  "eliminate nqubits p st a [] = Inr (st, a)"
| "eliminate nqubits p st a (i # is) =
     (if i \<noteq> p then
        then_do (rowsum (st ! a) (int i) (int p) nqubits False) (\<lambda>t.
        eliminate nqubits p (st @ [t]) (length st) is)
      else eliminate nqubits p st a is)"

text \<open>\<^verbatim>\<open>for i in ...: state_copy = self.rowsum(state_copy, 2 * nqubits, i.item() + nqubits,
  nqubits, include_scratch=True)\<close>\<close>

fun accumulate :: "nat \<Rightarrow> store \<Rightarrow> nat \<Rightarrow> nat list \<Rightarrow> error + store \<times> nat" where
  "accumulate nqubits st a [] = Inr (st, a)"
| "accumulate nqubits st a (i # is) =
     then_do (rowsum (st ! a) (int (2 * nqubits)) (int (i + nqubits)) nqubits True) (\<lambda>t.
     accumulate nqubits (st @ [t]) (length st) is)"

text \<open>
  The item assignments of the random branch on the array that \<^verbatim>\<open>state_copy\<close> is bound to:
  \<^verbatim>\<open>state_copy[p - nqubits, :] = state_copy[p, :]\<close>, \<^verbatim>\<open>state_copy[p, :] = 0\<close>,
  \<^verbatim>\<open>state_copy[p, -1] = outcome\<close> and \<^verbatim>\<open>state_copy[p, nqubits + q] = 1\<close>.  The
  outcome is drawn after the first of them; the draw reads nothing of the array.
\<close>

definition item_assignments :: "tableau \<Rightarrow> nat \<Rightarrow> nat \<Rightarrow> int \<Rightarrow> int \<Rightarrow> error + tableau" where
  "item_assignments t1 nqubits p q outcome =
     (let t2 = t1[p - nqubits := t1 ! p];
          t3 = t2[p := map (\<lambda>v. 0) (t2 ! p)];
          t4 = t3[p := (t3 ! p)[ncols t3 - 1 := outcome]]
      in
      then_do (norm_index (ncols t4) (int nqubits + q)) (\<lambda>j.
      Inr (t4[p := (t4 ! p)[j := 1]])))"

text \<open>The branch \<^verbatim>\<open>if len(p) > 0\<close>, with \<open>p\<close> the first stabilizer row found, and the
  branch \<^verbatim>\<open>else\<close>.\<close>

definition random_outcome ::
  "nat \<Rightarrow> (nat \<Rightarrow> int) \<Rightarrow> store \<times> nat \<times> int list \<times> nat \<Rightarrow> int \<Rightarrow> nat
     \<Rightarrow> error + store \<times> nat \<times> int list \<times> nat" where
  "random_outcome nqubits rnd s q p =
     (case s of (st, a, sample, k) \<Rightarrow>
      then_do (column (get_x (st ! a) nqubits False) (x_width (st ! a) nqubits) q) (\<lambda>xq.
      then_do (eliminate nqubits p st a (nonzero xq)) (\<lambda>(st1, a1).
      let outcome = rnd k in
      then_do (item_assignments (st1 ! a1) nqubits p q outcome) (\<lambda>t.
      Inr (st1[a1 := t], a1, sample @ [outcome], k + 1)))))"

definition determined_outcome ::
  "nat \<Rightarrow> store \<times> nat \<times> int list \<times> nat \<Rightarrow> int
     \<Rightarrow> error + store \<times> nat \<times> int list \<times> nat" where
  "determined_outcome nqubits s q =
     (case s of (st, a, sample, k) \<Rightarrow>
      let t = st ! a;
          st0 = st[a := butlast t @ [map (\<lambda>v. 0) (last t)]]
      in
      then_do (column (get_x (st0 ! a) nqubits False) (x_width (st0 ! a) nqubits) q) (\<lambda>xq.
      then_do (accumulate nqubits st0 a
                 (nonzero (map (\<lambda>v. if v = 1 then 1 else 0) xq))) (\<lambda>(st1, a1).
      Inr (st1, a1, sample @ [last (last (st1 ! a1))], k))))"

text \<open>
  One turn of the loop over \<^verbatim>\<open>qubits\<close>.  The state is the store, the address bound to
  \<^verbatim>\<open>state_copy\<close>, the sample so far and the number of random bits drawn so far; \<open>rnd k\<close> is
  the value of the \<open>k\<close>-th call of \<^verbatim>\<open>np.random.randint(2, size=1)\<close>.  The view \<^verbatim>\<open>x\<close> is read
  where the code reads it.  The index \<open>-1\<close> and the rows \<open>p\<close>, \<open>p - nqubits\<close> and \<open>-1\<close> cannot
  be out of range once \<^verbatim>\<open>x[nqubits:, q]\<close> has not raised.
\<close>

definition M_step ::
  "nat \<Rightarrow> (nat \<Rightarrow> int) \<Rightarrow> store \<times> nat \<times> int list \<times> nat \<Rightarrow> int
     \<Rightarrow> error + store \<times> nat \<times> int list \<times> nat" where
  "M_step nqubits rnd s q =
     (case s of (st, a, sample, k) \<Rightarrow>
      then_do (column (drop nqubits (get_x (st ! a) nqubits False))
                 (x_width (st ! a) nqubits) q) (\<lambda>xs.
      let p = map (\<lambda>j. j + nqubits) (nonzero xs) in
      if length p > 0 then random_outcome nqubits rnd s q (hd p)
      else determined_outcome nqubits s q))"

fun M_loop ::
  "nat \<Rightarrow> (nat \<Rightarrow> int) \<Rightarrow> store \<times> nat \<times> int list \<times> nat \<Rightarrow> int list
     \<Rightarrow> error + store \<times> nat \<times> int list \<times> nat" where
  "M_loop nqubits rnd s [] = Inr s"
| "M_loop nqubits rnd s (q # qs) = then_do (M_step nqubits rnd s q) (\<lambda>s'. M_loop nqubits rnd s' qs)"

text \<open>\<^verbatim>\<open>state_copy = state if collapse else state.copy()\<close>, then the loop.\<close>

definition M_run ::
  "tableau \<Rightarrow> int list \<Rightarrow> nat \<Rightarrow> bool \<Rightarrow> (nat \<Rightarrow> int) \<Rightarrow> error + store \<times> nat \<times> int list \<times> nat" where
  "M_run state qubits nqubits collapse rnd =
     M_loop nqubits rnd (if collapse then ([state], 0, [], 0) else ([state, state], 1, [], 0)) qubits"

text \<open>
  The value of a Python expression, as far as \<^verbatim>\<open>M\<close> needs it: the function ends with
  \<^verbatim>\<open>return sample\<close>.
\<close>

datatype pyobj = List_of_int "int list" | Ndarray tableau | Tuple "pyobj list"

definition M :: "tableau \<Rightarrow> int list \<Rightarrow> nat \<Rightarrow> bool \<Rightarrow> (nat \<Rightarrow> int) \<Rightarrow> error + pyobj" where
  "M state qubits nqubits collapse rnd =
     then_do (M_run state qubits nqubits collapse rnd) (\<lambda>(st, a, sample, k).
     Inr (List_of_int sample))"

text \<open>The caller's array when \<^verbatim>\<open>M\<close> has returned, and the array last bound to
  \<^verbatim>\<open>state_copy\<close>.\<close>

definition M_state :: "tableau \<Rightarrow> int list \<Rightarrow> nat \<Rightarrow> bool \<Rightarrow> (nat \<Rightarrow> int) \<Rightarrow> error + tableau" where
  "M_state state qubits nqubits collapse rnd =
     then_do (M_run state qubits nqubits collapse rnd) (\<lambda>(st, a, sample, k). Inr (st ! 0))"

definition M_state_copy ::
  "tableau \<Rightarrow> int list \<Rightarrow> nat \<Rightarrow> bool \<Rightarrow> (nat \<Rightarrow> int) \<Rightarrow> error + tableau" where
  "M_state_copy state qubits nqubits collapse rnd =
     then_do (M_run state qubits nqubits collapse rnd) (\<lambda>(st, a, sample, k). Inr (st ! a))"

text \<open>Two sources of random bits for the examples.\<close>

definition all_zero :: "nat \<Rightarrow> int" where
  "all_zero k = 0"

definition all_one :: "nat \<Rightarrow> int" where
  "all_one k = 1"

text \<open>
  The zero state on \<open>n\<close> qubits, in the words of the specification: destabilizer row \<open>k\<close>
  is the single-qubit X on qubit \<open>k\<close>, stabilizer row \<open>n + k\<close> the single-qubit Z on qubit
  \<open>k\<close>, all phase bits are 0 and so is the scratch row.
\<close>

definition zero_state :: "nat \<Rightarrow> tableau" where
  "zero_state n =
     map (\<lambda>i. map (\<lambda>j. if i = j \<and> i < 2 * n then 1 else 0) [0..<2 * n + 1]) [0..<2 * n + 1]"

section \<open>The decoder\<close>

text \<open>
  A gate object \<^verbatim>\<open>gates.X(i)\<close> is the letter with the qubit it acts on.  The dictionary
  \<^verbatim>\<open>bits_to_gate\<close> is looked up under the key \<^verbatim>\<open>f"{zz}{xx}"\<close>, the decimal digits of \<open>zz\<close>
  followed by those of \<open>xx\<close>; it is one of the four keys exactly for the four pairs of bits
  below, and any other pair is a \<^verbatim>\<open>KeyError\<close>.
\<close>

datatype gates = gates_I nat | gates_X nat | gates_Y nat | gates_Z nat

definition bits_to_gate :: "int \<Rightarrow> int \<Rightarrow> (nat \<Rightarrow> gates) option" where
  "bits_to_gate zz xx =
     (if zz = 0 \<and> xx = 0 then Some gates_I
      else if zz = 0 \<and> xx = 1 then Some gates_X
      else if zz = 1 \<and> xx = 0 then Some gates_Z
      else if zz = 1 \<and> xx = 1 then Some gates_Y
      else None)"

text \<open>
  Modelled from the spec: \<^verbatim>\<open>Gate.matrix()\<close> belongs to the gate objects, which are not
  among the sources; the specification calls its values the single-qubit Pauli matrices.
\<close>

fun matrix :: "gates \<Rightarrow> complex list list" where
  "matrix (gates_I i) = [[1, 0], [0, 1]]"
| "matrix (gates_X i) = [[0, 1], [1, 0]]"
| "matrix (gates_Y i) = [[0, - \<i>], [\<i>, 0]]"
| "matrix (gates_Z i) = [[1, 0], [0, - 1]]"

text \<open>
  An array of any number of axes is kept as its entries in row-major order, the order in
  which \<^verbatim>\<open>reshape\<close> reads them.  \<^verbatim>\<open>np.tensordot(a, b, axes=0)\<close> has the axes of \<open>a\<close>
  followed by those of \<open>b\<close>, so its entries are those of \<open>a\<close>, each multiplied with all
  of \<open>b\<close>.
\<close>

definition tensordot :: "complex list \<Rightarrow> complex list \<Rightarrow> complex list" where
  "tensordot a b = concat (map (\<lambda>u. map (\<lambda>v. u * v) b) a)"

definition reshape :: "complex list \<Rightarrow> nat \<Rightarrow> nat \<Rightarrow> error + complex list list" where
  "reshape flat r c =
     (if length flat = r * c then Inr (map (\<lambda>i. take c (drop (i * c) flat)) [0..<r])
      else Inl ValueError)"

text \<open>The branch \<^verbatim>\<open>if return_array\<close>; \<^verbatim>\<open>paulis[0]\<close> of an empty list is an
  \<^verbatim>\<open>IndexError\<close>.\<close>

definition to_array :: "nat \<Rightarrow> gates list \<Rightarrow> error + complex list list" where
  "to_array nqubits paulis =
     (case paulis of
        [] \<Rightarrow> Inl IndexError
      | p # ps \<Rightarrow>
          reshape (foldl (\<lambda>m g. tensordot m (concat (matrix g))) (concat (matrix p)) ps)
            (2 ^ nqubits) (2 ^ nqubits))"

datatype generator = Paulis "gates list" | Array "complex list list"

text \<open>The loop \<^verbatim>\<open>for x, z in zip(X, Z)\<close> with its inner loop over the qubits.\<close>

definition generators_loop ::
  "nat \<Rightarrow> bool \<Rightarrow> tableau \<Rightarrow> tableau \<Rightarrow> error + generator list" where
  "generators_loop nqubits return_array X Z =
     collect (map (\<lambda>(x, z).
         then_do (collect (map (\<lambda>(i, (xx, zz)).
             case bits_to_gate zz xx of
               None \<Rightarrow> Inl KeyError
             | Some gate \<Rightarrow> Inr (gate i))
           (enumerate 0 (zip x z)))) (\<lambda>paulis.
         if return_array then then_do (to_array nqubits paulis) (\<lambda>m. Inr (Array m))
         else Inr (Paulis paulis)))
       (zip X Z))"

text \<open>
  The side length \<^verbatim>\<open>tableau.shape[0]\<close> is not negative, and \<^verbatim>\<open>int((0 - 1) / 2)\<close> is 0, so
  the qubit count is the truncated difference halved.  \<^verbatim>\<open>tableau[nqubits:-1, -1]\<close> raises
  on an array without columns; a tableau without rows is taken to have no columns.
\<close>

definition tableau_to_generators ::
  "tableau \<Rightarrow> bool \<Rightarrow> error + generator list \<times> complex list" where
  "tableau_to_generators tableau return_array =
     (let nqubits = (length tableau - 1) div 2;
          rows = butlast (drop nqubits tableau)
      in
      if ncols tableau = 0 then Inl IndexError
      else
        (let phases = map (\<lambda>row. \<i> powi (1 * last row)) rows;
             tmp = map butlast rows;
             X = map (take nqubits) tmp;
             Z = map (drop nqubits) tmp
         in
         then_do (generators_loop nqubits return_array X Z) (\<lambda>generators.
         Inr (generators, phases))))"

text \<open>
  The Kronecker product of two matrices given by their rows, as the specification names it:
  the entry in row \<open>(i, k)\<close> and column \<open>(j, l)\<close> is \<open>a[i][j] * b[k][l]\<close>.
\<close>

definition kron :: "complex list list \<Rightarrow> complex list list \<Rightarrow> complex list list" where
  "kron a b =
     concat (map (\<lambda>ra. map (\<lambda>rb. concat (map (\<lambda>u. map (\<lambda>v. u * v) rb) ra)) b) a)"

text \<open>The Kronecker product of the matrices of a list of gates, left to right.\<close>

definition kron_all :: "gates list \<Rightarrow> complex list list" where
  "kron_all gs = foldl (\<lambda>m g. kron m (matrix g)) [[1]] gs"

section \<open>Qubit count\<close>

text \<open>
  \<^verbatim>\<open>int((shape - 1) / 2)\<close>: true division, then truncation towards zero.  (The quotient
  is a float; it is exact for every side length below \<open>2 ^ 53\<close>.)
\<close>

definition nqubits :: "int \<Rightarrow> int" where
  "nqubits shape = (if 0 \<le> shape - 1 then (shape - 1) div 2 else - ((1 - shape) div 2))"

section \<open>Entry-wise descriptions of the gates\<close>

text \<open>What \<^const>\<open>H\<close> leaves in row \<open>i\<close>, column \<open>j\<close> of a tableau on \<open>n\<close> qubits.\<close>

definition H_entry :: "tableau \<Rightarrow> nat \<Rightarrow> nat \<Rightarrow> nat \<Rightarrow> nat \<Rightarrow> int" where
  "H_entry t n q i j =
     (if j = q then t ! i ! (n + q)
      else if j = n + q then t ! i ! q
      else if j = 2 * n \<and> i < 2 * n then t ! i ! (2 * n) XOR (t ! i ! q * t ! i ! (n + q))
      else t ! i ! j)"

text \<open>What \<^const>\<open>CNOT\<close> leaves in row \<open>i\<close>, column \<open>j\<close>.\<close>

definition CNOT_entry :: "tableau \<Rightarrow> nat \<Rightarrow> nat \<Rightarrow> nat \<Rightarrow> nat \<Rightarrow> nat \<Rightarrow> int" where
  "CNOT_entry t n c tq i j =
     (if i < 2 * n \<and> j = n + c then t ! i ! (n + c) XOR t ! i ! (n + tq)
      else if i < 2 * n \<and> j = tq then t ! i ! tq XOR t ! i ! c
      else if i < 2 * n \<and> j = 2 * n then
        t ! i ! (2 * n) XOR
          (t ! i ! c * t ! i ! (n + tq) * ((t ! i ! tq XOR t ! i ! (n + c)) XOR 1))
      else t ! i ! j)"

text \<open>
  The table of the specification for the exponent of one qubit: \<open>(x1, z1) = (0, 0)\<close> gives
  0, \<open>(1, 1)\<close> gives \<open>z2 - x2\<close>, \<open>(1, 0)\<close> gives \<open>z2 * (2 * x2 - 1)\<close> and \<open>(0, 1)\<close> gives
  \<open>x2 * (1 - 2 * z2)\<close>.
\<close>

fun g :: "int \<times> int \<Rightarrow> int \<Rightarrow> int \<Rightarrow> int" where
  "g (x1, z1) x2 z2 =
     (if (x1, z1) = (0, 0) then 0
      else if (x1, z1) = (1, 1) then z2 - x2
      else if (x1, z1) = (1, 0) then z2 * (2 * x2 - 1)
      else x2 * (1 - 2 * z2))"

text \<open>The number of rows that the views of \<^const>\<open>rowsum\<close> have.\<close>

definition view_rows :: "nat \<Rightarrow> bool \<Rightarrow> nat" where
  "view_rows n include_scratch = (if include_scratch then 2 * n + 1 else 2 * n)"

text \<open>
  The letter that the decoder gives to the bits \<open>x\<close> and \<open>z\<close> of one qubit: X for
  \<open>x = 1, z = 0\<close> and Z for \<open>x = 0, z = 1\<close>.
\<close>

definition letter :: "int \<Rightarrow> int \<Rightarrow> nat \<Rightarrow> gates" where
  "letter x z i =
     (if x = 0 \<and> z = 0 then gates_I i
      else if x = 1 \<and> z = 0 then gates_X i
      else if x = 0 \<and> z = 1 then gates_Z i
      else gates_Y i)"

text \<open>
  The mapping as the specification words it, on the bit pair \<open>(x, z)\<close>: 00 to I, 01 to X,
  10 to Z, 11 to Y.
\<close>

fun claimed_letter :: "int \<times> int \<Rightarrow> nat \<Rightarrow> gates" where
  "claimed_letter (x, z) i =
     (if (x, z) = (0, 0) then gates_I i
      else if (x, z) = (0, 1) then gates_X i
      else if (x, z) = (1, 0) then gates_Z i
      else gates_Y i)"

text \<open>The letters of one row of the slice \<^verbatim>\<open>tableau[nqubits:-1]\<close>.\<close>

definition row_letters :: "nat \<Rightarrow> int list \<Rightarrow> gates list" where
  "row_letters nq row =
     map (\<lambda>(i, (xx, zz)). letter xx zz i)
       (enumerate 0 (zip (take nq (butlast row)) (drop nq (butlast row))))"

text \<open>
  What the item assignments of the random branch leave on a tableau on \<open>n\<close> qubits: row
  \<open>p\<close> is copied to row \<open>p - n\<close> and then replaced by the Z on qubit \<open>q\<close> with the outcome
  as phase bit.
\<close>

definition installed :: "tableau \<Rightarrow> nat \<Rightarrow> nat \<Rightarrow> nat \<Rightarrow> int \<Rightarrow> tableau" where
  "installed t n p q outcome =
     (let t2 = t[p - n := t ! p]
      in t2[p := (replicate (2 * n + 1) 0)[2 * n := outcome, n + q := 1]])"

section \<open>Basic facts\<close>

lemma then_do_simps [simp]: "then_do (Inr v) f = f v" "then_do (Inl e) f = Inl e"
  by (simp_all add: then_do_def)

lemma tableau_ok_ncols: "tableau_ok n t \<Longrightarrow> ncols t = 2 * n + 1"
  by (cases t) (auto simp: tableau_ok_def ncols_def)

lemma tableau_ok_row: "tableau_ok n t \<Longrightarrow> i < 2 * n + 1 \<Longrightarrow> length (t ! i) = 2 * n + 1"
  by (auto simp: tableau_ok_def list_all_length)

lemma tableau_ok_length: "tableau_ok n t \<Longrightarrow> length t = 2 * n + 1"
  by (simp add: tableau_ok_def)

lemma tableau_okI:
  "length t = 2 * n + 1 \<Longrightarrow> (\<And>i. i < 2 * n + 1 \<Longrightarrow> length (t ! i) = 2 * n + 1)
     \<Longrightarrow> tableau_ok n t"
  by (auto simp: tableau_ok_def list_all_length)

lemma tableau_eqI:
  assumes "tableau_ok n s" "tableau_ok n t"
    and "\<And>i j. i < 2 * n + 1 \<Longrightarrow> j < 2 * n + 1 \<Longrightarrow> s ! i ! j = t ! i ! j"
  shows "s = t"
proof (rule nth_equalityI)
  show "length s = length t" using assms by (simp add: tableau_ok_length)
next
  fix i assume "i < length s"
  then have i: "i < 2 * n + 1" using assms by (simp add: tableau_ok_length)
  show "s ! i = t ! i"
    by (rule nth_equalityI) (use i assms in \<open>simp_all add: tableau_ok_row\<close>)
qed

lemma norm_index_nonneg: "0 \<le> k \<Longrightarrow> k < int len \<Longrightarrow> norm_index len k = Inr (nat k)"
  by (simp add: norm_index_def)

lemma length_set_column:
  "length vals = length t - 1 \<Longrightarrow> length (set_column t j vals) = length t"
  by (cases "t = []") (auto simp: set_column_def)

lemma nth_set_column:
  assumes "length vals = length t - 1" "i < length t"
  shows "set_column t j vals ! i = (if i < length t - 1 then (t ! i)[j := vals ! i] else t ! i)"
proof -
  from assms have ne: "t \<noteq> []" by auto
  show ?thesis
  proof (cases "i < length t - 1")
    case True
    with assms ne show ?thesis
      by (simp add: set_column_def nth_append nth_butlast)
  next
    case False
    with assms have "i = length t - 1" by simp
    with assms ne False show ?thesis
      by (simp add: set_column_def nth_append last_conv_nth)
  qed
qed

lemma length_vxor: "length (vxor a b) = min (length a) (length b)"
  by (simp add: vxor_def)

lemma length_vmul: "length (vmul a b) = min (length a) (length b)"
  by (simp add: vmul_def)

lemma nth_vxor: "i < length a \<Longrightarrow> i < length b \<Longrightarrow> vxor a b ! i = a ! i XOR b ! i"
  by (simp add: vxor_def)

lemma nth_vmul: "i < length a \<Longrightarrow> i < length b \<Longrightarrow> vmul a b ! i = a ! i * b ! i"
  by (simp add: vmul_def)

section \<open>Hadamard\<close>

lemma H_pointwise:
  assumes ok: "tableau_ok n t" and q: "q < n"
  shows "\<exists>t'. H t (int q) n = Inr t' \<and> tableau_ok n t' \<and>
           (\<forall>i < 2 * n + 1. \<forall>j < 2 * n + 1. t' ! i ! j = H_entry t n q i j)"
proof -
  note len = tableau_ok_length [OF ok] and nc = tableau_ok_ncols [OF ok]
  have rowlen: "\<And>i. i < 2 * n + 1 \<Longrightarrow> length (t ! i) = 2 * n + 1"
    using ok by (rule tableau_ok_row)
  define xq where "xq = map (\<lambda>r. r ! q) (get_x t n False)"
  define zq where "zq = map (\<lambda>r. r ! q) (get_z t n False)"
  define r where "r = map last (butlast t)"
  define val where "val = vxor r (vmul xq zq)"
  define new_tab where "new_tab = set_column t (2 * n) val"
  have lval: "length val = 2 * n"
    by (simp add: val_def length_vxor length_vmul xq_def zq_def r_def get_x_def get_z_def
        row_slice_def len)
  have val_nth: "val ! i = t ! i ! (2 * n) XOR (t ! i ! q * t ! i ! (n + q))" if "i < 2 * n" for i
  proof -
    have "butlast t ! i = t ! i" using that len by (simp add: nth_butlast)
    moreover have "length (t ! i) = 2 * n + 1" using that rowlen by simp
    moreover have "t ! i \<noteq> []" using calculation by auto
    ultimately show ?thesis using that q len
      by (simp add: val_def nth_vxor nth_vmul length_vmul xq_def zq_def r_def get_x_def
          get_z_def row_slice_def last_conv_nth nth_butlast)
  qed
  have lnew: "length new_tab = 2 * n + 1"
    by (simp add: new_tab_def length_set_column lval len)
  have new_row: "new_tab ! i = (if i < 2 * n then (t ! i)[2 * n := val ! i] else t ! i)"
    if "i < 2 * n + 1" for i
    using that by (simp add: new_tab_def nth_set_column lval len)
  have ok_new: "tableau_ok n new_tab"
    by (rule tableau_okI) (simp_all add: lnew new_row rowlen)
  have Hval: "H t (int q) n = Inr (swap_columns new_tab q (n + q))"
    using q nc tableau_ok_ncols [OF ok_new]
    by (simp add: H_def get_r_def set_r_def column_def x_width_def z_width_def
        norm_index_def row_slice_def xq_def zq_def r_def val_def new_tab_def nat_add_distrib)
  have ok_res: "tableau_ok n (swap_columns new_tab q (n + q))"
    by (rule tableau_okI) (simp_all add: swap_columns_def lnew new_row rowlen)
  have "swap_columns new_tab q (n + q) ! i ! j = H_entry t n q i j"
    if "i < 2 * n + 1" "j < 2 * n + 1" for i j
    using that q
    by (auto simp: swap_columns_def lnew new_row rowlen H_entry_def val_nth nth_list_update)
  with Hval ok_res show ?thesis by blast
qed

text \<open>
  Claim C3.  On a tableau on \<open>n\<close> qubits and a qubit \<open>q\<close> in \<open>[0, n)\<close>, the Hadamard update
  does not raise, and applied again to its own result it gives back the tableau it started
  from, the scratch row included.
\<close>

theorem H_twice:
  assumes "tableau_ok n t" "0 \<le> q" "q < int n"
  shows "then_do (H t q n) (\<lambda>t1. H t1 q n) = Inr t"
proof -
  define k where "k = nat q"
  with assms have k: "k < n" and q: "q = int k" by simp_all
  from H_pointwise [OF assms(1) k] obtain t1 where
    t1: "H t (int k) n = Inr t1" "tableau_ok n t1"
      "\<And>i j. i < 2 * n + 1 \<Longrightarrow> j < 2 * n + 1 \<Longrightarrow> t1 ! i ! j = H_entry t n k i j"
    by blast
  from H_pointwise [OF t1(2) k] obtain t2 where
    t2: "H t1 (int k) n = Inr t2" "tableau_ok n t2"
      "\<And>i j. i < 2 * n + 1 \<Longrightarrow> j < 2 * n + 1 \<Longrightarrow> t2 ! i ! j = H_entry t1 n k i j"
    by blast
  have "t2 = t"
  proof (rule tableau_eqI [OF t2(2) assms(1)])
    fix i j assume ij: "i < 2 * n + 1" "j < 2 * n + 1"
    have "H_entry t1 n k i j = t ! i ! j"
      using ij k by (auto simp: H_entry_def t1(3) mult.commute xor.assoc)
    with ij show "t2 ! i ! j = t ! i ! j" by (simp add: t2(3))
  qed
  with t1 t2 show ?thesis by (simp add: q)
qed

theorem H_twice_witness:
  "tableau_ok 1 [[1, 1, 0], [0, 1, 1], [1, 0, 1]] \<and> (0::int) \<le> 0 \<and> (0::int) < int 1 \<and>
   then_do (H [[1, 1, 0], [0, 1, 1], [1, 0, 1]] 0 1) (\<lambda>t1. H t1 0 1)
     = Inr [[1, 1, 0], [0, 1, 1], [1, 0, 1]]"
proof -
  have ok: "tableau_ok 1 [[1, 1, 0], [0, 1, 1], [1, 0, 1]]"
    by (simp add: tableau_ok_def)
  from H_twice [OF ok, of 0] ok show ?thesis by simp
qed

section \<open>Controlled NOT\<close>

lemma x_column:
  assumes "tableau_ok n t" "q < n"
  shows "\<exists>v. column (get_x t n False) (x_width t n) (int q) = Inr v \<and> length v = 2 * n \<and>
           (\<forall>i < 2 * n. v ! i = t ! i ! q)"
  using assms
  by (simp add: column_def x_width_def tableau_ok_ncols norm_index_def get_x_def row_slice_def
      tableau_ok_length nth_butlast)

lemma z_column:
  assumes "tableau_ok n t" "q < n"
  shows "\<exists>v. column (get_z t n False) (z_width t n) (int q) = Inr v \<and> length v = 2 * n \<and>
           (\<forall>i < 2 * n. v ! i = t ! i ! (n + q))"
  using assms
  by (simp add: column_def z_width_def tableau_ok_ncols norm_index_def get_z_def row_slice_def
      tableau_ok_length nth_butlast tableau_ok_row)

lemma r_column:
  assumes "tableau_ok n t"
  shows "\<exists>v. get_r t n False = Inr v \<and> length v = 2 * n \<and> (\<forall>i < 2 * n. v ! i = t ! i ! (2 * n))"
proof -
  have "last (t ! i) = t ! i ! (2 * n)" if "i < 2 * n" for i
  proof -
    have "length (t ! i) = 2 * n + 1" using assms that by (simp add: tableau_ok_row)
    then show ?thesis by (cases "t ! i = []") (simp_all add: last_conv_nth)
  qed
  with assms show ?thesis
    by (simp add: get_r_def tableau_ok_ncols row_slice_def tableau_ok_length nth_butlast)
qed

lemma set_column_ok:
  assumes "tableau_ok n t" "length vals = 2 * n" "j < 2 * n + 1"
  shows "tableau_ok n (set_column t j vals)"
    and "\<And>i k. i < 2 * n + 1 \<Longrightarrow> k < 2 * n + 1 \<Longrightarrow>
           set_column t j vals ! i ! k = (if i < 2 * n \<and> k = j then vals ! i else t ! i ! k)"
proof -
  note len = tableau_ok_length [OF assms(1)]
  have row: "set_column t j vals ! i = (if i < 2 * n then (t ! i)[j := vals ! i] else t ! i)"
    if "i < 2 * n + 1" for i
    using that assms(2) len by (simp add: nth_set_column)
  show "tableau_ok n (set_column t j vals)"
    by (rule tableau_okI)
      (simp_all add: length_set_column assms(2) len row tableau_ok_row [OF assms(1)])
  show "set_column t j vals ! i ! k = (if i < 2 * n \<and> k = j then vals ! i else t ! i ! k)"
    if "i < 2 * n + 1" "k < 2 * n + 1" for i k
    using that assms(3) by (simp add: row tableau_ok_row [OF assms(1)] nth_list_update)
qed

lemma CNOT_pointwise:
  assumes ok: "tableau_ok n t" and c: "c < n" and tq: "tq < n"
  shows "\<exists>t'. CNOT t (int c) (int tq) n = Inr t' \<and> tableau_ok n t' \<and>
           (\<forall>i < 2 * n + 1. \<forall>j < 2 * n + 1. t' ! i ! j = CNOT_entry t n c tq i j)"
proof -
  from r_column [OF ok] obtain r where
    r: "get_r t n False = Inr r" "length r = 2 * n" "\<And>i. i < 2 * n \<Longrightarrow> r ! i = t ! i ! (2 * n)"
    by blast
  from x_column [OF ok c] obtain xc where
    xc: "column (get_x t n False) (x_width t n) (int c) = Inr xc" "length xc = 2 * n"
      "\<And>i. i < 2 * n \<Longrightarrow> xc ! i = t ! i ! c" by blast
  from x_column [OF ok tq] obtain xt where
    xt: "column (get_x t n False) (x_width t n) (int tq) = Inr xt" "length xt = 2 * n"
      "\<And>i. i < 2 * n \<Longrightarrow> xt ! i = t ! i ! tq" by blast
  from z_column [OF ok c] obtain zc where
    zc: "column (get_z t n False) (z_width t n) (int c) = Inr zc" "length zc = 2 * n"
      "\<And>i. i < 2 * n \<Longrightarrow> zc ! i = t ! i ! (n + c)" by blast
  from z_column [OF ok tq] obtain zt where
    zt: "column (get_z t n False) (z_width t n) (int tq) = Inr zt" "length zt = 2 * n"
      "\<And>i. i < 2 * n \<Longrightarrow> zt ! i = t ! i ! (n + tq)" by blast
  define val where "val = vxor r (vmul (vmul xc zt) (map (\<lambda>v. v XOR 1) (vxor xt zc)))"
  have lval: "length val = 2 * n"
    by (simp add: val_def length_vxor length_vmul r xc zt xt zc)
  have val_nth: "val ! i = t ! i ! (2 * n) XOR
      (t ! i ! c * t ! i ! (n + tq) * ((t ! i ! tq XOR t ! i ! (n + c)) XOR 1))"
    if "i < 2 * n" for i
    using that by (simp add: val_def nth_vxor nth_vmul length_vxor length_vmul r xc zt xt zc)
  define tab1 where "tab1 = set_column t (2 * n) val"
  have set1: "set_r t val = Inr tab1"
    by (simp add: set_r_def tab1_def tableau_ok_ncols [OF ok])
  have ok1: "tableau_ok n tab1"
    and e1: "\<And>i k. i < 2 * n + 1 \<Longrightarrow> k < 2 * n + 1 \<Longrightarrow>
           tab1 ! i ! k = (if i < 2 * n \<and> k = 2 * n then val ! i else t ! i ! k)"
    unfolding tab1_def using set_column_ok [OF ok lval, of "2 * n"] by simp_all
  from x_column [OF ok1 tq] obtain xt1 where
    xt1: "column (get_x tab1 n False) (x_width tab1 n) (int tq) = Inr xt1" "length xt1 = 2 * n"
      "\<And>i. i < 2 * n \<Longrightarrow> xt1 ! i = tab1 ! i ! tq" by blast
  from x_column [OF ok1 c] obtain xc1 where
    xc1: "column (get_x tab1 n False) (x_width tab1 n) (int c) = Inr xc1" "length xc1 = 2 * n"
      "\<And>i. i < 2 * n \<Longrightarrow> xc1 ! i = tab1 ! i ! c" by blast
  define tab2 where "tab2 = set_column tab1 tq (vxor xt1 xc1)"
  have lv2: "length (vxor xt1 xc1) = 2 * n" by (simp add: length_vxor xt1 xc1)
  have ok2: "tableau_ok n tab2"
    and e2: "\<And>i k. i < 2 * n + 1 \<Longrightarrow> k < 2 * n + 1 \<Longrightarrow>
           tab2 ! i ! k = (if i < 2 * n \<and> k = tq then vxor xt1 xc1 ! i else tab1 ! i ! k)"
    unfolding tab2_def using set_column_ok [OF ok1 lv2, of tq] tq by simp_all
  from z_column [OF ok2 c] obtain zc2 where
    zc2: "column (get_z tab2 n False) (z_width tab2 n) (int c) = Inr zc2" "length zc2 = 2 * n"
      "\<And>i. i < 2 * n \<Longrightarrow> zc2 ! i = tab2 ! i ! (n + c)" by blast
  from z_column [OF ok2 tq] obtain zt2 where
    zt2: "column (get_z tab2 n False) (z_width tab2 n) (int tq) = Inr zt2" "length zt2 = 2 * n"
      "\<And>i. i < 2 * n \<Longrightarrow> zt2 ! i = tab2 ! i ! (n + tq)" by blast
  define tab3 where "tab3 = set_column tab2 (n + c) (vxor zc2 zt2)"
  have lv3: "length (vxor zc2 zt2) = 2 * n" by (simp add: length_vxor zc2 zt2)
  have ok3: "tableau_ok n tab3"
    and e3: "\<And>i k. i < 2 * n + 1 \<Longrightarrow> k < 2 * n + 1 \<Longrightarrow>
           tab3 ! i ! k = (if i < 2 * n \<and> k = n + c then vxor zc2 zt2 ! i else tab2 ! i ! k)"
    unfolding tab3_def using set_column_ok [OF ok2 lv3, of "n + c"] c by simp_all
  have val: "CNOT t (int c) (int tq) n = Inr tab3"
    using c tq
    by (simp add: CNOT_def r xc zt xt zc set1 xt1 xc1 zc2 zt2 val_def [symmetric]
        tab2_def [symmetric] tab3_def [symmetric] tableau_ok_ncols [OF ok1]
        tableau_ok_ncols [OF ok2] norm_index_def nat_add_distrib)
  have "tab3 ! i ! j = CNOT_entry t n c tq i j" if "i < 2 * n + 1" "j < 2 * n + 1" for i j
    using that c tq
    by (auto simp: e3 e2 e1 CNOT_entry_def nth_vxor zc2 zt2 xt1 xc1 val_nth)
  with val ok3 show ?thesis by blast
qed

lemma bit_cases: "bits t \<Longrightarrow> i < length t \<Longrightarrow> j < length (t ! i) \<Longrightarrow> t ! i ! j = 0 \<or> t ! i ! j = 1"
  by (simp add: bits_def list_all_length)

text \<open>
  Claim C4.  On a binary tableau on \<open>n\<close> qubits and two different qubits in \<open>[0, n)\<close>,
  the CNOT update does not raise, and applied again with the same control and target it
  gives back the tableau it started from.
\<close>

theorem CNOT_twice:
  assumes ok: "tableau_ok n t" and b: "bits t"
    and c: "0 \<le> c" "c < int n" and tq: "0 \<le> tq" "tq < int n" and ne: "c \<noteq> tq"
  shows "then_do (CNOT t c tq n) (\<lambda>t1. CNOT t1 c tq n) = Inr t"
proof -
  define c' t' where "c' = nat c" and "t' = nat tq"
  with c tq ne have c': "c' < n" "c = int c'" and t': "t' < n" "tq = int t'" and ne': "c' \<noteq> t'"
    by simp_all
  from CNOT_pointwise [OF ok c'(1) t'(1)] obtain t1 where
    t1: "CNOT t (int c') (int t') n = Inr t1" "tableau_ok n t1"
      "\<And>i j. i < 2 * n + 1 \<Longrightarrow> j < 2 * n + 1 \<Longrightarrow> t1 ! i ! j = CNOT_entry t n c' t' i j"
    by blast
  from CNOT_pointwise [OF t1(2) c'(1) t'(1)] obtain t2 where
    t2: "CNOT t1 (int c') (int t') n = Inr t2" "tableau_ok n t2"
      "\<And>i j. i < 2 * n + 1 \<Longrightarrow> j < 2 * n + 1 \<Longrightarrow> t2 ! i ! j = CNOT_entry t1 n c' t' i j"
    by blast
  have "t2 = t"
  proof (rule tableau_eqI [OF t2(2) ok])
    fix i j assume ij: "i < 2 * n + 1" "j < 2 * n + 1"
    have bit: "t ! i ! k = 0 \<or> t ! i ! k = 1" if "k < 2 * n + 1" for k
      using bit_cases [OF b, of i k] ij that ok by (simp add: tableau_ok_length tableau_ok_row)
    have "CNOT_entry t1 n c' t' i j = t ! i ! j"
      using ij c' t' ne' bit [of c'] bit [of t'] bit [of "n + c'"] bit [of "n + t'"]
      by (auto simp: CNOT_entry_def t1(3) xor.assoc)
    with ij show "t2 ! i ! j = t ! i ! j" by (simp add: t2(3))
  qed
  with t1 t2 show ?thesis by (simp add: c' t')
qed

theorem CNOT_twice_witness:
  "tableau_ok 2 [[1, 0, 1, 0, 0], [1, 1, 0, 1, 1], [0, 0, 1, 1, 0], [1, 1, 1, 1, 1], [0, 1, 0, 1, 0]] \<and>
   bits [[1, 0, 1, 0, 0], [1, 1, 0, 1, 1], [0, 0, 1, 1, 0], [1, 1, 1, 1, 1], [0, 1, 0, 1, 0]] \<and>
   then_do (CNOT [[1, 0, 1, 0, 0], [1, 1, 0, 1, 1], [0, 0, 1, 1, 0], [1, 1, 1, 1, 1], [0, 1, 0, 1, 0]] 0 1 2)
     (\<lambda>t1. CNOT t1 0 1 2)
     = Inr [[1, 0, 1, 0, 0], [1, 1, 0, 1, 1], [0, 0, 1, 1, 0], [1, 1, 1, 1, 1], [0, 1, 0, 1, 0]]"
proof -
  have ok: "tableau_ok 2 [[1, 0, 1, 0, 0], [1, 1, 0, 1, 1], [0, 0, 1, 1, 0], [1, 1, 1, 1, 1], [0, 1, 0, 1, 0]]"
    by (simp add: tableau_ok_def)
  have b: "bits [[1, 0, 1, 0, 0], [1, 1, 0, 1, 1], [0, 0, 1, 1, 0], [1, 1, 1, 1, 1], [0, 1, 0, 1, 0]]"
    by (simp add: bits_def)
  from CNOT_twice [OF ok b, of 0 1] ok b show ?thesis by simp
qed

section \<open>Rowsum\<close>

lemma collect_Inr:
  "(\<And>x. x \<in> set xs \<Longrightarrow> F x = Inr (f x)) \<Longrightarrow> collect (map F xs) = Inr (map f xs)"
  by (induction xs) simp_all

lemma exponent_bits:
  "(x1 = 0 \<or> x1 = 1) \<Longrightarrow> (z1 = 0 \<or> z1 = 1) \<Longrightarrow> exponent x1 z1 x2 z2 = Some (g (x1, z1) x2 z2)"
  by (auto simp: exponent_def)

lemma row_slice_nth:
  "tableau_ok n t \<Longrightarrow> h < view_rows n s \<Longrightarrow> row_slice t n s ! h = t ! h"
  by (auto simp: row_slice_def view_rows_def tableau_ok_length nth_butlast)

lemma row_slice_length: "tableau_ok n t \<Longrightarrow> length (row_slice t n s) = view_rows n s"
  by (auto simp: row_slice_def view_rows_def tableau_ok_length)

lemma x_entry:
  assumes "tableau_ok n t" "h < view_rows n s" "j < n"
  shows "entry (get_x t n s) (length (get_x t n s)) (x_width t n) (int h) (int j) = Inr (t ! h ! j)"
  using assms
  by (simp add: entry_def get_x_def row_slice_length row_slice_nth norm_index_def x_width_def
      tableau_ok_ncols)

lemma z_entry:
  assumes "tableau_ok n t" "h < view_rows n s" "j < n"
  shows "entry (get_z t n s) (length (get_z t n s)) (z_width t n) (int h) (int j)
           = Inr (t ! h ! (n + j))"
proof -
  have "h < 2 * n + 1" using assms(2) by (simp add: view_rows_def split: if_splits)
  then have "length (t ! h) = 2 * n + 1" using assms(1) by (simp add: tableau_ok_row)
  with assms show ?thesis
    by (simp add: entry_def get_z_def row_slice_length row_slice_nth norm_index_def z_width_def
        tableau_ok_ncols nth_butlast)
qed

lemma r_entry:
  assumes "tableau_ok n t" "h < 2 * n + 1"
  shows "entry t (length t) (ncols t) (int h) (- 1) = Inr (t ! h ! (2 * n))"
  using assms
  by (simp add: entry_def norm_index_def tableau_ok_length tableau_ok_ncols nat_add_distrib
      nat_mult_distrib)

lemma x_row:
  assumes "tableau_ok n t" "h < view_rows n s"
  shows "row_at (get_x t n s) (int h) = Inr (take n (t ! h))"
  using assms by (simp add: row_at_def get_x_def row_slice_length row_slice_nth norm_index_def)

lemma z_row:
  assumes "tableau_ok n t" "h < view_rows n s"
  shows "row_at (get_z t n s) (int h) = Inr (butlast (drop n (t ! h)))"
  using assms by (simp add: row_at_def get_z_def row_slice_length row_slice_nth norm_index_def)

lemma tableau_ok_update:
  "tableau_ok n t \<Longrightarrow> length r = 2 * n + 1 \<Longrightarrow> tableau_ok n (t[h := r])"
  by (cases "h < length t") (auto simp: tableau_ok_def list_all_length nth_list_update)

lemma rowsum_pointwise:
  assumes ok: "tableau_ok n t" and b: "bits t"
    and h: "h < view_rows n s" and i: "i < view_rows n s"
  shows "\<exists>t'. rowsum t (int h) (int i) n s = Inr t' \<and> tableau_ok n t' \<and>
           (\<forall>k < 2 * n + 1. k \<noteq> h \<longrightarrow> t' ! k = t ! k) \<and>
           (\<forall>j < n. t' ! h ! j = t ! i ! j XOR t ! h ! j) \<and>
           (\<forall>j < n. t' ! h ! (n + j) = t ! i ! (n + j) XOR t ! h ! (n + j)) \<and>
           t' ! h ! (2 * n) =
             (if (2 * (t ! h ! (2 * n)) + 2 * (t ! i ! (2 * n))
                  + (\<Sum>j = 0..<n. g (t ! i ! j, t ! i ! (n + j)) (t ! h ! j) (t ! h ! (n + j))))
                 mod 4 = 0 then 0 else 1)"
proof -
  have h': "h < 2 * n + 1" and i': "i < 2 * n + 1"
    using h i by (simp_all add: view_rows_def split: if_splits)
  note len = tableau_ok_length [OF ok]
  have rl: "\<And>k. k < 2 * n + 1 \<Longrightarrow> length (t ! k) = 2 * n + 1"
    using ok by (rule tableau_ok_row)
  have bit: "t ! k ! j = 0 \<or> t ! k ! j = 1" if "k < 2 * n + 1" "j < 2 * n + 1" for k j
    using bit_cases [OF b, of k j] that len rl by simp
  define ex where
    "ex = (\<lambda>j. g (t ! i ! j, t ! i ! (n + j)) (t ! h ! j) (t ! h ! (n + j)))"
  let ?x = "get_x t n s" and ?z = "get_z t n s"
  have exps: "collect (map (\<lambda>j.
         then_do (entry ?x (length ?x) (x_width t n) (int i) (int j)) (\<lambda>x1.
         then_do (entry ?x (length ?x) (x_width t n) (int h) (int j)) (\<lambda>x2.
         then_do (entry ?z (length ?z) (z_width t n) (int i) (int j)) (\<lambda>z1.
         then_do (entry ?z (length ?z) (z_width t n) (int h) (int j)) (\<lambda>z2.
         Inr (exponent x1 z1 x2 z2)))))) [0..<n])
       = Inr (map (\<lambda>j. Some (ex j)) [0..<n])"
  proof (rule collect_Inr)
    fix j assume "j \<in> set [0..<n]"
    then have j: "j < n" by simp
    show "then_do (entry ?x (length ?x) (x_width t n) (int i) (int j)) (\<lambda>x1.
         then_do (entry ?x (length ?x) (x_width t n) (int h) (int j)) (\<lambda>x2.
         then_do (entry ?z (length ?z) (z_width t n) (int i) (int j)) (\<lambda>z1.
         then_do (entry ?z (length ?z) (z_width t n) (int h) (int j)) (\<lambda>z2.
         Inr (exponent x1 z1 x2 z2))))) = Inr (Some (ex j))"
      using j i' bit [of i j] bit [of i "n + j"]
      by (simp add: x_entry [OF ok _ j] z_entry [OF ok _ j] h i exponent_bits ex_def)
  qed
  have total: "np_sum (map (\<lambda>j. Some (ex j)) [0..<n]) = Inr (\<Sum>j = 0..<n. ex j)"
    by (auto simp: np_sum_def comp_def interv_sum_list_conv_sum_set_nat)
  define ph where "ph = (if (2 * (t ! h ! (2 * n)) + 2 * (t ! i ! (2 * n)) + (\<Sum>j = 0..<n. ex j))
                 mod 4 = 0 then 0 else 1 :: int)"
  define tab1 where "tab1 = t[h := (t ! h)[2 * n := ph]]"
  have ok1: "tableau_ok n tab1"
    unfolding tab1_def by (rule tableau_ok_update [OF ok]) (use h' in \<open>simp add: rl\<close>)
  have row1: "tab1 ! k = (if k = h then (t ! h)[2 * n := ph] else t ! k)" if "k < 2 * n + 1" for k
    using that len h' by (simp add: tab1_def nth_list_update)
  define xs where "xs = vxor (take n (tab1 ! i)) (take n (tab1 ! h))"
  have lxs: "length xs = n" using h' i' by (simp add: xs_def length_vxor row1 rl)
  define tab2 where "tab2 = tab1[h := xs @ drop n (tab1 ! h)]"
  have ok2: "tableau_ok n tab2"
    unfolding tab2_def by (rule tableau_ok_update [OF ok1]) (use h' in \<open>simp add: lxs row1 rl\<close>)
  have row2: "tab2 ! k = (if k = h then xs @ drop n ((t ! h)[2 * n := ph]) else t ! k)"
    if "k < 2 * n + 1" for k
    using that tableau_ok_length [OF ok1] h' by (simp add: tab2_def nth_list_update row1)
  define zs where "zs = vxor (butlast (drop n (tab2 ! i))) (butlast (drop n (tab2 ! h)))"
  have lzs: "length zs = n"
    using h' i' by (simp add: zs_def length_vxor row2 rl lxs)
  define tab3 where "tab3 = tab2[h := take n (tab2 ! h) @ zs @ drop (n + n) (tab2 ! h)]"
  have ok3: "tableau_ok n tab3"
    unfolding tab3_def by (rule tableau_ok_update [OF ok2]) (use h' in \<open>simp add: lzs lxs row2 rl\<close>)
  have row3: "tab3 ! k = (if k = h then xs @ zs @ [ph] else t ! k)" if "k < 2 * n + 1" for k
  proof -
    have "drop (n + n) (xs @ drop n ((t ! h)[2 * n := ph])) = [ph]"
      using rl [OF h'] lxs
      by (simp add: list_eq_iff_nth_eq mult_2 [symmetric])
    then show ?thesis
      using that tableau_ok_length [OF ok2] h' by (simp add: tab3_def nth_list_update row2 lxs)
  qed
  have nh: "norm_index (length t) (int h) = Inr h"
    using h' by (simp add: norm_index_def len)
  have nc1: "ncols t - Suc 0 = 2 * n"
    by (simp add: tableau_ok_ncols [OF ok])
  have tab2_alt: "t[h := xs @ drop n (tab1 ! h)] = tab2"
    by (simp add: tab2_def tab1_def)
  have tab3_alt: "t[h := take n (tab2 ! h) @ zs @ drop (n + n) (tab2 ! h)] = tab3"
    by (simp add: tab3_def tab2_def tab1_def)
  have val: "rowsum t (int h) (int i) n s = Inr tab3"
    by (simp add: rowsum_def Let_def exps total r_entry [OF ok h'] r_entry [OF ok i'] nh nc1
        ph_def [symmetric] tab1_def [symmetric]
        x_row [OF ok1] z_row [OF ok2] h i xs_def [symmetric] lxs tab2_alt
        zs_def [symmetric] lzs tab3_alt)
  have xs_nth: "xs ! j = t ! i ! j XOR t ! h ! j" if "j < n" for j
    using that h' i' by (simp add: xs_def nth_vxor row1 rl)
  have zs_nth: "zs ! j = t ! i ! (n + j) XOR t ! h ! (n + j)" if "j < n" for j
    using that h' i' by (simp add: zs_def nth_vxor row2 rl lxs nth_butlast nth_append)
  have "\<forall>j < n. tab3 ! h ! j = t ! i ! j XOR t ! h ! j"
    using h' by (simp add: row3 nth_append lxs xs_nth)
  moreover have "\<forall>j < n. tab3 ! h ! (n + j) = t ! i ! (n + j) XOR t ! h ! (n + j)"
    using h' by (simp add: row3 nth_append lxs lzs zs_nth)
  moreover have "tab3 ! h ! (2 * n) = ph"
    using h' by (simp add: row3 nth_append lxs lzs)
  moreover have "\<forall>k < 2 * n + 1. k \<noteq> h \<longrightarrow> tab3 ! k = t ! k"
    by (simp add: row3)
  ultimately show ?thesis using val ok3 by (simp add: ph_def ex_def)
qed



section \<open>Facts about the decoder\<close>

lemma bits_to_gate_bits:
  "(xx = 0 \<or> xx = 1) \<Longrightarrow> (zz = 0 \<or> zz = 1) \<Longrightarrow> bits_to_gate zz xx = Some (letter xx zz)"
  by (auto simp: bits_to_gate_def letter_def)

lemma bits_rowD: "bits t \<Longrightarrow> row \<in> set t \<Longrightarrow> v \<in> set row \<Longrightarrow> v = 0 \<or> v = 1"
  by (auto simp: bits_def list_all_iff)

lemma collect_map_Inr: "collect (map (\<lambda>x. Inr (f x)) xs) = Inr (map f xs)"
  by (rule collect_Inr) simp

lemma decode_row:
  assumes "\<And>v. v \<in> set row \<Longrightarrow> v = 0 \<or> v = 1"
  shows "collect (map (\<lambda>(i, (xx, zz)).
             case bits_to_gate zz xx of None \<Rightarrow> Inl KeyError | Some gate \<Rightarrow> Inr (gate i))
           (enumerate 0 (zip (take nq (butlast row)) (drop nq (butlast row)))))
         = Inr (row_letters nq row)"
  unfolding row_letters_def
proof (rule collect_Inr)
  fix p assume p: "p \<in> set (enumerate 0 (zip (take nq (butlast row)) (drop nq (butlast row))))"
  obtain i xx zz where [simp]: "p = (i, (xx, zz))" by (metis prod.exhaust)
  from p have "(xx, zz) \<in> set (zip (take nq (butlast row)) (drop nq (butlast row)))"
    unfolding enumerate_eq_zip by (auto dest: set_zip_rightD)
  then have "xx \<in> set (take nq (butlast row))" "zz \<in> set (drop nq (butlast row))"
    by (auto dest: set_zip_leftD set_zip_rightD)
  then have "xx \<in> set row" "zz \<in> set row"
    by (auto dest!: in_set_takeD in_set_dropD in_set_butlastD)
  with assms have "xx = 0 \<or> xx = 1" "zz = 0 \<or> zz = 1" by blast+
  then show "(case p of (i, (xx, zz)) \<Rightarrow>
             (case bits_to_gate zz xx of None \<Rightarrow> Inl KeyError | Some gate \<Rightarrow> Inr (gate i)))
        = Inr (case p of (i, (xx, zz)) \<Rightarrow> letter xx zz i)"
    by (simp add: bits_to_gate_bits)
qed

lemma zip_take_drop:
  "zip (map (take k) (map butlast rs)) (map (drop k) (map butlast rs))
     = map (\<lambda>row. (take k (butlast row), drop k (butlast row))) rs"
  by (induction rs) simp_all

lemma generators_loop_Paulis:
  assumes "\<And>row v. row \<in> set rows \<Longrightarrow> v \<in> set row \<Longrightarrow> v = 0 \<or> v = 1"
  shows "generators_loop nq False (map (take nq) (map butlast rows)) (map (drop nq) (map butlast rows))
           = Inr (map (\<lambda>row. Paulis (row_letters nq row)) rows)"
proof -
  have "map (\<lambda>(x, z).
         then_do (collect (map (\<lambda>(i, (xx, zz)).
             case bits_to_gate zz xx of None \<Rightarrow> Inl KeyError | Some gate \<Rightarrow> Inr (gate i))
           (enumerate 0 (zip x z)))) (\<lambda>paulis.
         if False then then_do (to_array nq paulis) (\<lambda>m. Inr (Array m))
         else Inr (Paulis paulis)))
       (map (\<lambda>row. (take nq (butlast row), drop nq (butlast row))) rows)
     = map (\<lambda>row. Inr (Paulis (row_letters nq row))) rows"
    using assms by (simp add: decode_row)
  then show ?thesis
    by (simp only: generators_loop_def zip_take_drop collect_map_Inr)
qed

lemma decode_general:
  assumes b: "bits t" and nc: "ncols t \<noteq> 0"
  shows "tableau_to_generators t False =
           Inr (map (\<lambda>row. Paulis (row_letters ((length t - 1) div 2) row))
                  (butlast (drop ((length t - 1) div 2) t)),
                map (\<lambda>row. \<i> powi last row) (butlast (drop ((length t - 1) div 2) t)))"
proof -
  let ?nq = "(length t - 1) div 2"
  let ?rows = "butlast (drop ?nq t)"
  have rows: "row \<in> set t" if "row \<in> set ?rows" for row
    using that by (auto dest!: in_set_butlastD in_set_dropD)
  have "generators_loop ?nq False (map (take ?nq) (map butlast ?rows))
          (map (drop ?nq) (map butlast ?rows))
        = Inr (map (\<lambda>row. Paulis (row_letters ?nq row)) ?rows)"
    by (rule generators_loop_Paulis) (rule bits_rowD [OF b rows])
  with nc show ?thesis
    unfolding tableau_to_generators_def Let_def by simp
qed

lemma row_letters_nth:
  assumes "length row = 2 * n + 1"
  shows "row_letters n row = map (\<lambda>j. letter (row ! j) (row ! (n + j)) j) [0..<n]"
proof (rule nth_equalityI)
  show "length (row_letters n row) = length (map (\<lambda>j. letter (row ! j) (row ! (n + j)) j) [0..<n])"
    using assms by (simp add: row_letters_def)
next
  fix j assume "j < length (row_letters n row)"
  with assms have j: "j < n" by (simp add: row_letters_def)
  with assms show "row_letters n row ! j = map (\<lambda>j. letter (row ! j) (row ! (n + j)) j) [0..<n] ! j"
    by (simp add: row_letters_def nth_enumerate_eq nth_butlast)
qed

text \<open>
  Claim C6, with the key of the dictionary read as the code forms it, the bit of Z first.
  On a binary tableau on \<open>n\<close> qubits the decoder does not raise; it returns one generator
  and one phase for each of the rows \<open>n, ..., 2 * n - 1\<close>, the phase is \<open>\<i>\<close> to the power of
  the phase bit of the row, and the letter at qubit \<open>j\<close> is \<^const>\<open>letter\<close> of the bits \<open>x\<close>
  and \<open>z\<close> of the row at that qubit.  The decoder reads the tableau and writes to arrays of
  its own only.
\<close>

theorem decoder_stabilizer_rows:
  assumes "tableau_ok n t" "bits t"
  shows "\<exists>gens phases. tableau_to_generators t False = Inr (gens, phases) \<and>
           length gens = n \<and> length phases = n \<and>
           (\<forall>k < n. phases ! k = \<i> powi (t ! (n + k) ! (2 * n)) \<and>
              gens ! k = Paulis (map (\<lambda>j. letter (t ! (n + k) ! j) (t ! (n + k) ! (n + j)) j) [0..<n]))"
proof -
  note len = tableau_ok_length [OF assms(1)]
  have nq: "(length t - 1) div 2 = n" by (simp add: len)
  have nc: "ncols t \<noteq> 0" by (simp add: tableau_ok_ncols [OF assms(1)])
  let ?rows = "butlast (drop n t)"
  have lrows: "length ?rows = n" by (simp add: len)
  have row: "?rows ! k = t ! (n + k)" if "k < n" for k
    using that len by (simp add: nth_butlast)
  have rl: "length (t ! (n + k)) = 2 * n + 1" if "k < n" for k
    using that by (simp add: tableau_ok_row [OF assms(1)])
  have last: "last (t ! (n + k)) = t ! (n + k) ! (2 * n)" if "k < n" for k
    using rl [OF that] by (cases "t ! (n + k) = []") (simp_all add: last_conv_nth)
  define rows where "rows = butlast (drop n t)"
  have lr: "length rows = n" and rk: "\<And>k. k < n \<Longrightarrow> rows ! k = t ! (n + k)"
    using lrows row by (simp_all add: rows_def)
  from decode_general [OF assms(2) nc]
  have val: "tableau_to_generators t False =
      Inr (map (\<lambda>row. Paulis (row_letters n row)) rows, map (\<lambda>row. \<i> powi last row) rows)"
    unfolding nq rows_def .
  have "map (\<lambda>row. \<i> powi last row) rows ! k = \<i> powi (t ! (n + k) ! (2 * n))"
    and "map (\<lambda>row. Paulis (row_letters n row)) rows ! k =
      Paulis (map (\<lambda>j. letter (t ! (n + k) ! j) (t ! (n + k) ! (n + j)) j) [0..<n])"
    if "k < n" for k
    using that by (simp_all add: lr rk last row_letters_nth [OF rl])
  with val lr show ?thesis by simp
qed

theorem decoder_stabilizer_rows_witness:
  "tableau_ok 1 [[0, 1, 0], [1, 0, 1], [0, 0, 0]] \<and> bits [[0, 1, 0], [1, 0, 1], [0, 0, 0]] \<and>
   tableau_to_generators [[0, 1, 0], [1, 0, 1], [0, 0, 0]] False = Inr ([Paulis [gates_X 0]], [\<i>])"
proof -
  have ok: "tableau_ok 1 [[0, 1, 0], [1, 0, 1], [0, 0, 0]]" by (simp add: tableau_ok_def)
  have b: "bits [[0, 1, 0], [1, 0, 1], [0, 0, 0]]" by (simp add: bits_def)
  from decoder_stabilizer_rows [OF ok b] obtain gens phases where
    r: "tableau_to_generators [[0, 1, 0], [1, 0, 1], [0, 0, 0]] False = Inr (gens, phases)"
      "length gens = 1" "length phases = 1"
      "phases ! 0 = \<i> powi ([[0, 1, 0], [1, 0, 1], [0, 0, 0]] ! (1 + 0) ! (2 * 1))"
      "gens ! 0 = Paulis (map (\<lambda>j. letter ([[0, 1, 0], [1, 0, 1], [0, 0, 0]] ! (1 + 0) ! j)
                                 ([[0, 1, 0], [1, 0, 1], [0, 0, 0]] ! (1 + 0) ! (1 + j)) j) [0..<1])"
    by auto
  from r(2,5) have "gens = [Paulis [gates_X 0]]"
    by (cases gens) (simp_all add: letter_def)
  moreover from r(3,4) have "phases = [\<i>]"
    by (cases phases) simp_all
  ultimately show ?thesis using r(1) ok b by simp
qed

text \<open>
  The claim as worded fails: a stabilizer row with \<open>x = 1\<close> and \<open>z = 0\<close> decodes to X,
  where the mapping read on the pair \<open>(x, z)\<close> gives Z.
\<close>

theorem decoder_letter_counterexample:
  "tableau_to_generators [[0, 1, 0], [1, 0, 0], [0, 0, 0]] False = Inr ([Paulis [gates_X 0]], [1]) \<and>
   claimed_letter (1, 0) 0 = gates_Z 0"
  by (simp add: decode_general bits_def ncols_def row_letters_def letter_def enumerate_eq_zip)






text \<open>
  Claim C7 at the zero state on two qubits, whose stabilizers are Z on qubit 0 and Z on
  qubit 1.  The array that the decoder returns for the first of them has its entries in the
  order of \<^const>\<open>tensordot\<close>, rows \<open>(i, j)\<close> and columns \<open>(k, l)\<close>; the Kronecker product of
  the matrices of Z and I is the diagonal matrix with 1, 1, -1, -1.
\<close>

theorem return_array_two_qubits:
  "tableau_to_generators
     [[1, 0, 0, 0, 0], [0, 1, 0, 0, 0], [0, 0, 1, 0, 0], [0, 0, 0, 1, 0], [0, 0, 0, 0, 0]] True
     = Inr ([Array [[1, 0, 0, 1], [0, 0, 0, 0], [0, 0, 0, 0], [- 1, 0, 0, - 1]],
             Array [[1, 0, 0, - 1], [0, 0, 0, 0], [0, 0, 0, 0], [1, 0, 0, - 1]]], [1, 1]) \<and>
   kron_all [gates_Z 0, gates_I 1] = [[1, 0, 0, 0], [0, 1, 0, 0], [0, 0, - 1, 0], [0, 0, 0, - 1]]"
  by (simp add: tableau_to_generators_def generators_loop_def ncols_def bits_to_gate_def
      to_array_def tensordot_def reshape_def kron_all_def kron_def enumerate_eq_zip upt_rec)

section \<open>Qubit indices out of range\<close>

lemma norm_index_outside:
  "k < - int w \<or> int w \<le> k \<Longrightarrow> norm_index w k = Inl IndexError"
  by (auto simp: norm_index_def)

lemma x_column_outside:
  assumes "q < - int n \<or> int n \<le> q"
  shows "column view (x_width t n) q = Inl IndexError"
proof -
  have "x_width t n \<le> n" by (simp add: x_width_def)
  with assms have "q < - int (x_width t n) \<or> int (x_width t n) \<le> q" by linarith
  then show ?thesis by (simp add: column_def norm_index_outside)
qed

lemma get_r_cases: "get_r t n s = Inl IndexError \<or> (\<exists>r. get_r t n s = Inr r)"
  by (simp add: get_r_def)

lemma H_outside:
  assumes "q < - int n \<or> int n \<le> q"
  shows "H t q n = Inl IndexError"
  using get_r_cases [of t n False] by (auto simp: H_def x_column_outside [OF assms])

lemma S_outside:
  assumes "q < - int n \<or> int n \<le> q"
  shows "S t q n = Inl IndexError"
  using get_r_cases [of t n False] by (auto simp: S_def x_column_outside [OF assms])

lemma column_cases:
  "column view w k = Inl IndexError \<or> (\<exists>v. column view w k = Inr v)"
  by (cases "norm_index w k") (auto simp: column_def norm_index_def split: if_splits)

lemma CNOT_control_outside:
  assumes "q < - int n \<or> int n \<le> q"
  shows "CNOT t q q' n = Inl IndexError"
  using get_r_cases [of t n False] by (auto simp: CNOT_def x_column_outside [OF assms])

lemma CNOT_target_outside:
  assumes "q < - int n \<or> int n \<le> q"
  shows "CNOT t q' q n = Inl IndexError"
  using get_r_cases [of t n False]
    column_cases [of "get_x t n False" "x_width t n" q']
    column_cases [of "get_z t n False" "z_width t n" q]
  by (auto simp: CNOT_def x_column_outside [OF assms])

lemma M_step_outside:
  assumes "q < - int n \<or> int n \<le> q"
  shows "M_step n rnd s q = Inl IndexError"
  by (cases s) (simp add: M_step_def x_column_outside [OF assms])

lemma M_loop_outside:
  assumes "q < - int n \<or> int n \<le> q" "q \<in> set qs"
  shows "\<exists>e. M_loop n rnd s qs = Inl e"
  using assms(2)
proof (induction qs arbitrary: s)
  case Nil
  then show ?case by simp
next
  case (Cons a qs)
  show ?case
  proof (cases "M_step n rnd s a")
    case (Inl e)
    then show ?thesis by simp
  next
    case (Inr s')
    with M_step_outside [OF assms(1), of rnd s] have "a \<noteq> q" by auto
    with Cons.prems have "q \<in> set qs" by simp
    from Cons.IH [OF this, of s'] Inr show ?thesis by simp
  qed
qed

lemma norm_index_inside:
  "- int w \<le> k \<Longrightarrow> k < int w \<Longrightarrow> \<exists>j < w. norm_index w k = Inr j"
  by (auto simp: norm_index_def)

lemma column_inside:
  "- int w \<le> k \<Longrightarrow> k < int w \<Longrightarrow> \<exists>v. column view w k = Inr v \<and> length v = length view"
  using norm_index_inside [of w k] by (auto simp: column_def)

lemma views_inside:
  assumes ok: "tableau_ok n t" and q: "- int n \<le> q" "q < int n"
  shows "\<exists>v. column (get_x t n False) (x_width t n) q = Inr v \<and> length v = 2 * n"
    and "\<exists>v. column (get_z t n False) (z_width t n) q = Inr v \<and> length v = 2 * n"
    and "\<exists>j < 2 * n + 1. norm_index (ncols t) q = Inr j"
    and "\<exists>j < 2 * n + 1. norm_index (ncols t) (int n + q) = Inr j"
proof -
  have w: "x_width t n = n" "z_width t n = n" "ncols t = 2 * n + 1"
    by (simp_all add: x_width_def z_width_def tableau_ok_ncols [OF ok])
  have l: "length (get_x t n False) = 2 * n" "length (get_z t n False) = 2 * n"
    by (simp_all add: get_x_def get_z_def row_slice_def tableau_ok_length [OF ok])
  show "\<exists>v. column (get_x t n False) (x_width t n) q = Inr v \<and> length v = 2 * n"
    using column_inside [OF q, of "get_x t n False"] by (simp add: w l)
  show "\<exists>v. column (get_z t n False) (z_width t n) q = Inr v \<and> length v = 2 * n"
    using column_inside [OF q, of "get_z t n False"] by (simp add: w l)
  show "\<exists>j < 2 * n + 1. norm_index (ncols t) q = Inr j"
    unfolding w using norm_index_inside [of "2 * n + 1" q] q by auto
  show "\<exists>j < 2 * n + 1. norm_index (ncols t) (int n + q) = Inr j"
    unfolding w using norm_index_inside [of "2 * n + 1" "int n + q"] q by auto
qed

lemma set_r_ok:
  assumes "tableau_ok n t" "length val = 2 * n"
  shows "\<exists>tab. set_r t val = Inr tab \<and> tableau_ok n tab"
  using set_column_ok(1) [OF assms, of "2 * n"]
  by (simp add: set_r_def tableau_ok_ncols [OF assms(1)])

lemma H_inside:
  assumes ok: "tableau_ok n t" and q: "- int n \<le> q" "q < int n"
  shows "\<exists>t'. H t q n = Inr t'"
proof -
  from r_column [OF ok] obtain r where r: "get_r t n False = Inr r" "length r = 2 * n"
    by blast
  from views_inside(1) [OF ok q] obtain xq where
    xq: "column (get_x t n False) (x_width t n) q = Inr xq" "length xq = 2 * n" by blast
  from views_inside(2) [OF ok q] obtain zq where
    zq: "column (get_z t n False) (z_width t n) q = Inr zq" "length zq = 2 * n" by blast
  have "length (vxor r (vmul xq zq)) = 2 * n"
    by (simp add: length_vxor length_vmul r xq zq)
  from set_r_ok [OF ok this] obtain tab where
    tab: "set_r t (vxor r (vmul xq zq)) = Inr tab" "tableau_ok n tab" by blast
  from views_inside(3,4) [OF tab(2) q] obtain a b where
    "norm_index (ncols tab) q = Inr a" "norm_index (ncols tab) (int n + q) = Inr b" by blast
  then show ?thesis by (simp add: H_def r xq zq tab)
qed

lemma S_inside:
  assumes ok: "tableau_ok n t" and q: "- int n \<le> q" "q < int n"
  shows "\<exists>t'. S t q n = Inr t'"
proof -
  from r_column [OF ok] obtain r where r: "get_r t n False = Inr r" "length r = 2 * n"
    by blast
  from views_inside(1) [OF ok q] obtain xq where
    xq: "column (get_x t n False) (x_width t n) q = Inr xq" "length xq = 2 * n" by blast
  from views_inside(2) [OF ok q] obtain zq where
    zq: "column (get_z t n False) (z_width t n) q = Inr zq" "length zq = 2 * n" by blast
  have "length (vxor r (vmul xq zq)) = 2 * n"
    by (simp add: length_vxor length_vmul r xq zq)
  from set_r_ok [OF ok this] obtain tab where
    tab: "set_r t (vxor r (vmul xq zq)) = Inr tab" "tableau_ok n tab" by blast
  from views_inside(4) [OF tab(2) q] obtain b where
    "norm_index (ncols tab) (int n + q) = Inr b" by blast
  then show ?thesis by (simp add: S_def r xq zq tab)
qed

lemma CNOT_inside:
  assumes ok: "tableau_ok n t" and c: "- int n \<le> c" "c < int n"
    and q: "- int n \<le> q" "q < int n"
  shows "\<exists>t'. CNOT t c q n = Inr t'"
proof -
  from r_column [OF ok] obtain r where r: "get_r t n False = Inr r" "length r = 2 * n"
    by blast
  from views_inside(1) [OF ok c] obtain xc where
    xc: "column (get_x t n False) (x_width t n) c = Inr xc" "length xc = 2 * n" by blast
  from views_inside(2) [OF ok q] obtain zt where
    zt: "column (get_z t n False) (z_width t n) q = Inr zt" "length zt = 2 * n" by blast
  from views_inside(1) [OF ok q] obtain xt where
    xt: "column (get_x t n False) (x_width t n) q = Inr xt" "length xt = 2 * n" by blast
  from views_inside(2) [OF ok c] obtain zc where
    zc: "column (get_z t n False) (z_width t n) c = Inr zc" "length zc = 2 * n" by blast
  have "length (vxor r (vmul (vmul xc zt) (map (\<lambda>v. v XOR 1) (vxor xt zc)))) = 2 * n"
    by (simp add: length_vxor length_vmul r xc zt xt zc)
  from set_r_ok [OF ok this] obtain tab1 where
    tab1: "set_r t (vxor r (vmul (vmul xc zt) (map (\<lambda>v. v XOR 1) (vxor xt zc)))) = Inr tab1"
      "tableau_ok n tab1" by blast
  from views_inside(1) [OF tab1(2) q] obtain xt1 where
    xt1: "column (get_x tab1 n False) (x_width tab1 n) q = Inr xt1" "length xt1 = 2 * n" by blast
  from views_inside(1) [OF tab1(2) c] obtain xc1 where
    xc1: "column (get_x tab1 n False) (x_width tab1 n) c = Inr xc1" "length xc1 = 2 * n" by blast
  from views_inside(3) [OF tab1(2) q] obtain jt where
    jt: "jt < 2 * n + 1" "norm_index (ncols tab1) q = Inr jt" by blast
  define tab2 where "tab2 = set_column tab1 jt (vxor xt1 xc1)"
  have "length (vxor xt1 xc1) = 2 * n" by (simp add: length_vxor xt1 xc1)
  from set_column_ok(1) [OF tab1(2) this jt(1)] have ok2: "tableau_ok n tab2"
    by (simp add: tab2_def)
  from views_inside(2) [OF ok2 c] obtain zc2 where
    zc2: "column (get_z tab2 n False) (z_width tab2 n) c = Inr zc2" by blast
  from views_inside(2) [OF ok2 q] obtain zt2 where
    zt2: "column (get_z tab2 n False) (z_width tab2 n) q = Inr zt2" by blast
  from views_inside(4) [OF ok2 c] obtain jc where
    jc: "norm_index (ncols tab2) (int n + c) = Inr jc" by blast
  show ?thesis
    by (simp add: CNOT_def r xc zt xt zc tab1 xt1 xc1 jt tab2_def [symmetric] zc2 zt2 jc)
qed

text \<open>
  Claim C8, as the code has it.  There is no check of the qubit index in the gates or in
  the measurement; what rejects an index is the array indexing.  An index \<open>q\<close> below \<open>-n\<close>
  or from \<open>n\<close> on raises \<^verbatim>\<open>IndexError\<close> in \<^const>\<open>H\<close>, \<^const>\<open>S\<close> and \<^const>\<open>CNOT\<close> (as
  control or as target) on every tableau, and a measurement whose list holds such an index
  raises.  A negative index from \<open>-n\<close> on is counted from the end of the axis: on a tableau
  on \<open>n\<close> qubits the three gates return a tableau for it.
\<close>

theorem qubit_index_range:
  "(q < - int n \<or> int n \<le> q \<longrightarrow>
      H t q n = Inl IndexError \<and> S t q n = Inl IndexError \<and>
      CNOT t q q' n = Inl IndexError \<and> CNOT t q' q n = Inl IndexError \<and>
      (q \<in> set qubits \<longrightarrow> (\<exists>e. M t qubits n collapse rnd = Inl e))) \<and>
   (tableau_ok n t \<and> - int n \<le> q \<and> q < 0 \<and> - int n \<le> q' \<and> q' < int n \<longrightarrow>
      (\<exists>t'. H t q n = Inr t') \<and> (\<exists>t'. S t q n = Inr t') \<and>
      (\<exists>t'. CNOT t q q' n = Inr t') \<and> (\<exists>t'. CNOT t q' q n = Inr t'))"
proof (intro conjI impI)
  assume out: "q < - int n \<or> int n \<le> q"
  show "H t q n = Inl IndexError" by (rule H_outside [OF out])
  show "S t q n = Inl IndexError" by (rule S_outside [OF out])
  show "CNOT t q q' n = Inl IndexError" by (rule CNOT_control_outside [OF out])
  show "CNOT t q' q n = Inl IndexError" by (rule CNOT_target_outside [OF out])
  assume "q \<in> set qubits"
  from M_loop_outside [OF out this] show "\<exists>e. M t qubits n collapse rnd = Inl e"
    unfolding M_def M_run_def by (metis then_do_simps(2))
next
  assume a: "tableau_ok n t \<and> - int n \<le> q \<and> q < 0 \<and> - int n \<le> q' \<and> q' < int n"
  then have q: "- int n \<le> q" "q < int n" by auto
  from a show "\<exists>t'. H t q n = Inr t'" using H_inside q by blast
  from a show "\<exists>t'. S t q n = Inr t'" using S_inside q by blast
  from a show "\<exists>t'. CNOT t q q' n = Inr t'" using CNOT_inside q by blast
  from a show "\<exists>t'. CNOT t q' q n = Inr t'" using CNOT_inside q by blast
qed

theorem qubit_index_range_witness:
  "H [[1, 0, 0], [0, 1, 0], [0, 0, 0]] 1 1 = Inl IndexError \<and>
   S [[1, 0, 0], [0, 1, 0], [0, 0, 0]] 1 1 = Inl IndexError \<and>
   CNOT [[1, 0, 0], [0, 1, 0], [0, 0, 0]] 1 0 1 = Inl IndexError \<and>
   CNOT [[1, 0, 0], [0, 1, 0], [0, 0, 0]] 0 1 1 = Inl IndexError \<and>
   (\<exists>e. M [[1, 0, 0], [0, 1, 0], [0, 0, 0]] [0, 1] 1 False all_zero = Inl e) \<and>
   tableau_ok 1 [[1, 0, 0], [0, 1, 0], [0, 0, 0]] \<and>
   (\<exists>t'. H [[1, 0, 0], [0, 1, 0], [0, 0, 0]] (- 1) 1 = Inr t') \<and>
   (\<exists>t'. S [[1, 0, 0], [0, 1, 0], [0, 0, 0]] (- 1) 1 = Inr t') \<and>
   (\<exists>t'. CNOT [[1, 0, 0], [0, 1, 0], [0, 0, 0]] (- 1) 0 1 = Inr t')"
proof -
  let ?t = "[[1, 0, 0], [0, 1, 0], [0, 0, 0 :: int]]"
  have ok: "tableau_ok 1 ?t" by (simp add: tableau_ok_def)
  from qubit_index_range [of 1 1 ?t 0 "[0, 1]" False all_zero]
    qubit_index_range [of "- 1" 1 ?t 0 "[]" False all_zero] ok
  show ?thesis by simp
qed

text \<open>
  The claim as worded fails for a negative index: \<open>-1\<close> is taken for the last column of
  each view, \<^const>\<open>H\<close> then swaps the phase column with column \<open>n - 1\<close> and returns, and
  \<^const>\<open>M\<close> returns a sample.
\<close>

theorem negative_index_counterexample:
  "H [[1, 0, 0], [0, 1, 0], [0, 0, 0]] (- 1) 1 = Inr [[0, 0, 1], [0, 1, 0], [0, 0, 0]] \<and>
   M [[1, 0, 0], [0, 1, 0], [0, 0, 0]] [- 1] 1 False all_zero = Inr (List_of_int [0])"
  by code_simp

section \<open>Measurement: the invariant of the loop\<close>

lemma bitsI:
  assumes "tableau_ok n t"
    and "\<And>i j. i < 2 * n + 1 \<Longrightarrow> j < 2 * n + 1 \<Longrightarrow> t ! i ! j = 0 \<or> t ! i ! j = 1"
  shows "bits t"
  using assms by (auto simp: bits_def list_all_length tableau_ok_length tableau_ok_row)

lemma bitsD:
  assumes "tableau_ok n t" "bits t" "i < 2 * n + 1" "j < 2 * n + 1"
  shows "t ! i ! j = 0 \<or> t ! i ! j = 1"
  using bit_cases [OF assms(2), of i j] assms by (simp add: tableau_ok_length tableau_ok_row)

lemma bit_xor: "(a = 0 \<or> a = 1) \<Longrightarrow> (b = 0 \<or> b = 1) \<Longrightarrow> a XOR b = 0 \<or> a XOR b = (1::int)"
  by auto

lemma rowsum_ok:
  assumes ok: "tableau_ok n t" and b: "bits t"
    and h: "h < view_rows n s" and i: "i < view_rows n s"
  shows "\<exists>t'. rowsum t (int h) (int i) n s = Inr t' \<and> tableau_ok n t' \<and> bits t' \<and>
           (\<forall>k < 2 * n + 1. k \<noteq> h \<longrightarrow> t' ! k = t ! k)"
proof -
  from rowsum_pointwise [OF ok b h i] obtain t' where
    t': "rowsum t (int h) (int i) n s = Inr t'" "tableau_ok n t'"
      "\<And>k. k < 2 * n + 1 \<Longrightarrow> k \<noteq> h \<Longrightarrow> t' ! k = t ! k"
      "\<And>j. j < n \<Longrightarrow> t' ! h ! j = t ! i ! j XOR t ! h ! j"
      "\<And>j. j < n \<Longrightarrow> t' ! h ! (n + j) = t ! i ! (n + j) XOR t ! h ! (n + j)"
      "t' ! h ! (2 * n) = 0 \<or> t' ! h ! (2 * n) = 1"
    by (auto split: if_splits)
  have h': "h < 2 * n + 1" and i': "i < 2 * n + 1"
    using h i by (simp_all add: view_rows_def split: if_splits)
  have "bits t'"
  proof (rule bitsI [OF t'(2)])
    fix k j assume k: "k < 2 * n + 1" and j: "j < 2 * n + 1"
    show "t' ! k ! j = 0 \<or> t' ! k ! j = 1"
    proof (cases "k = h")
      case False
      with t'(3) [OF k] bitsD [OF ok b k j] show ?thesis by simp
    next
      case True
      consider "j < n" | "n \<le> j" "j < 2 * n" | "j = 2 * n" using j by linarith
      then show ?thesis
      proof cases
        case 1
        with t'(4) [OF 1] bit_xor [OF bitsD [OF ok b i' j] bitsD [OF ok b h' j]] True
        show ?thesis by simp
      next
        case 2
        then have "j - n < n" and e: "n + (j - n) = j" by simp_all
        from t'(5) [OF this(1)] bit_xor [OF bitsD [OF ok b i' j] bitsD [OF ok b h' j]] True
        show ?thesis by (simp add: e)
      next
        case 3
        with t'(6) True show ?thesis by simp
      qed
    qed
  qed
  with t' show ?thesis by blast
qed

lemma eliminate_ok:
  assumes "a < length st" "tableau_ok n (st ! a)" "bits (st ! a)" "p < 2 * n"
    and "\<And>i. i \<in> set rows \<Longrightarrow> i < 2 * n"
  shows "\<exists>st' a'. eliminate n p st a rows = Inr (st', a') \<and> a' < length st' \<and>
           tableau_ok n (st' ! a') \<and> bits (st' ! a') \<and> take (length st) st' = st \<and>
           (if \<forall>i \<in> set rows. i = p then st' = st \<and> a' = a else length st \<le> a')"
  using assms
proof (induction rows arbitrary: st a)
  case Nil
  then show ?case by simp
next
  case (Cons i rows)
  show ?case
  proof (cases "i = p")
    case True
    with Cons.IH [OF Cons.prems(1-4)] Cons.prems(5) show ?thesis by simp
  next
    case False
    have v: "i < view_rows n False" "p < view_rows n False"
      using Cons.prems(4,5) by (simp_all add: view_rows_def)
    from rowsum_ok [OF Cons.prems(2,3) v] obtain t where
      t: "rowsum (st ! a) (int i) (int p) n False = Inr t" "tableau_ok n t" "bits t" by blast
    have "length st < length (st @ [t])" "tableau_ok n ((st @ [t]) ! length st)"
      "bits ((st @ [t]) ! length st)"
      using t by simp_all
    from Cons.IH [OF this Cons.prems(4)] Cons.prems(5) obtain st' a' where
      r: "eliminate n p (st @ [t]) (length st) rows = Inr (st', a')" "a' < length st'"
        "tableau_ok n (st' ! a')" "bits (st' ! a')" "take (length (st @ [t])) st' = st @ [t]"
        "if \<forall>i \<in> set rows. i = p then st' = st @ [t] \<and> a' = length st
         else length (st @ [t]) \<le> a'"
      by auto
    from r(5) have "take (length st) (take (length (st @ [t])) st') = st" by simp
    then have pre: "take (length st) st' = st" by (simp add: min_def)
    from r(6) have "length st \<le> a'" by (auto split: if_splits)
    with False t r pre show ?thesis by simp
  qed
qed

lemma accumulate_ok:
  assumes "a < length st" "tableau_ok n (st ! a)" "bits (st ! a)"
    and "\<And>i. i \<in> set rows \<Longrightarrow> i < n"
  shows "\<exists>st' a'. accumulate n st a rows = Inr (st', a') \<and> a' < length st' \<and>
           tableau_ok n (st' ! a') \<and> bits (st' ! a') \<and> take (length st) st' = st"
  using assms
proof (induction rows arbitrary: st a)
  case Nil
  then show ?case by simp
next
  case (Cons i rows)
  have v: "2 * n < view_rows n True" "i + n < view_rows n True"
    using Cons.prems(4) [of i] by (simp_all add: view_rows_def)
  from rowsum_ok [OF Cons.prems(2,3) v] obtain t where
    t: "rowsum (st ! a) (int (2 * n)) (int (i + n)) n True = Inr t" "tableau_ok n t" "bits t"
    by blast
  have "length st < length (st @ [t])" "tableau_ok n ((st @ [t]) ! length st)"
    "bits ((st @ [t]) ! length st)"
    using t by simp_all
  from Cons.IH [OF this] Cons.prems(4) obtain st' a' where
    r: "accumulate n (st @ [t]) (length st) rows = Inr (st', a')" "a' < length st'"
      "tableau_ok n (st' ! a')" "bits (st' ! a')" "take (length (st @ [t])) st' = st @ [t]"
    by auto
  from r(5) have "take (length st) (take (length (st @ [t])) st') = st" by simp
  then have pre: "take (length st) st' = st" by (simp add: min_def)
  with t r show ?case by simp
qed

lemma set_nonzero: "set (nonzero v) = {k. k < length v \<and> v ! k \<noteq> 0}"
  by (auto simp: nonzero_def)

lemma butlast_snoc_update: "t \<noteq> [] \<Longrightarrow> butlast t @ [x] = t[length t - 1 := x]"
  by (cases t rule: rev_cases) simp_all

lemma bits_update:
  assumes "bits t" "list_all (\<lambda>v. v = 0 \<or> v = 1) r"
  shows "bits (t[i := r])"
  using assms unfolding bits_def list_all_iff by (auto dest!: set_update_subset_insert [THEN subsetD])

lemma bits_row: "bits t \<Longrightarrow> i < length t \<Longrightarrow> list_all (\<lambda>v. v = 0 \<or> v = 1) (t ! i)"
  by (simp add: bits_def list_all_length)

lemma bit_row_update:
  assumes "list_all (\<lambda>v. v = 0 \<or> v = 1) r" "x = 0 \<or> x = (1::int)"
  shows "list_all (\<lambda>v. v = 0 \<or> v = 1) (r[j := x])"
  using assms unfolding list_all_iff by (auto dest!: set_update_subset_insert [THEN subsetD])

lemma stabilizer_column:
  assumes "tableau_ok n t" "q < n"
  shows "column (drop n (get_x t n False)) (x_width t n) (int q)
           = Inr (map (\<lambda>i. t ! (n + i) ! q) [0..<n])"
proof -
  have "map (\<lambda>r. r ! q) (drop n (get_x t n False)) = map (\<lambda>i. t ! (n + i) ! q) [0..<n]"
    using assms
    by (auto intro!: nth_equalityI
        simp: get_x_def row_slice_def tableau_ok_length nth_butlast)
  with assms show ?thesis
    by (simp add: column_def x_width_def tableau_ok_ncols norm_index_def)
qed

lemma generator_column:
  assumes "tableau_ok n t" "q < n"
  shows "column (get_x t n False) (x_width t n) (int q) = Inr (map (\<lambda>i. t ! i ! q) [0..<2 * n])"
proof -
  have "map (\<lambda>r. r ! q) (get_x t n False) = map (\<lambda>i. t ! i ! q) [0..<2 * n]"
    using assms
    by (auto intro!: nth_equalityI
        simp: get_x_def row_slice_def tableau_ok_length nth_butlast)
  with assms show ?thesis
    by (simp add: column_def x_width_def tableau_ok_ncols norm_index_def)
qed

text \<open>The tableau that the random branch leaves in the array bound to \<^verbatim>\<open>state_copy\<close>.\<close>

lemma install_ok:
  assumes ok: "tableau_ok n t" and b: "bits t" and p: "n \<le> p" "p < 2 * n" and q: "q < n"
    and o: "outcome = 0 \<or> outcome = 1"
  shows "tableau_ok n (installed t n p q outcome)" and "bits (installed t n p q outcome)"
proof -
  note len = tableau_ok_length [OF ok]
  define t2 where "t2 = t[p - n := t ! p]"
  have rp: "length (t ! p) = 2 * n + 1" using p by (simp add: tableau_ok_row [OF ok])
  have bp: "list_all (\<lambda>v. v = 0 \<or> v = 1) (t ! p)" using p len by (simp add: bits_row [OF b])
  have ok2: "tableau_ok n t2" and b2: "bits t2"
    unfolding t2_def using tableau_ok_update [OF ok rp] bits_update [OF b bp] by simp_all
  define z where "z = (replicate (2 * n + 1) (0::int))[2 * n := outcome, n + q := 1]"
  have lz: "length z = 2 * n + 1" by (simp add: z_def del: replicate_Suc)
  have bz: "list_all (\<lambda>v. v = 0 \<or> v = 1) z"
    unfolding z_def by (intro bit_row_update o) (simp_all add: list_all_iff del: replicate_Suc)
  have "installed t n p q outcome = t2[p := z]"
    by (simp add: installed_def Let_def t2_def z_def)
  with tableau_ok_update [OF ok2 lz] bits_update [OF b2 bz]
  show "tableau_ok n (installed t n p q outcome)" and "bits (installed t n p q outcome)"
    by simp_all
qed

lemma item_assignments_installed:
  assumes ok: "tableau_ok n t" and p: "n \<le> p" "p < 2 * n" and q: "q < n"
  shows "item_assignments t n p (int q) outcome = Inr (installed t n p q outcome)"
proof -
  note len = tableau_ok_length [OF ok]
  have rp: "length (t ! p) = 2 * n + 1" using p by (simp add: tableau_ok_row [OF ok])
  define t2 where "t2 = t[p - n := t ! p]"
  have ok2: "tableau_ok n t2" unfolding t2_def by (rule tableau_ok_update [OF ok rp])
  have l2: "length (t2 ! p) = 2 * n + 1" using p by (simp add: tableau_ok_row [OF ok2])
  define t3 where "t3 = t2[p := map (\<lambda>v. 0) (t2 ! p)]"
  have ok3: "tableau_ok n t3"
    unfolding t3_def by (rule tableau_ok_update [OF ok2]) (simp add: l2)
  have r3: "t3 ! p = replicate (2 * n + 1) 0"
    using p tableau_ok_length [OF ok2] l2 by (simp add: t3_def map_replicate_const)
  define t4 where "t4 = t3[p := (t3 ! p)[ncols t3 - 1 := outcome]]"
  have ok4: "tableau_ok n t4"
    unfolding t4_def by (rule tableau_ok_update [OF ok3]) (simp add: r3 del: replicate_Suc)
  have r4: "t4 ! p = (replicate (2 * n + 1) 0)[2 * n := outcome]"
    using p tableau_ok_length [OF ok3] by (simp add: t4_def r3 tableau_ok_ncols [OF ok3])
  have nj: "norm_index (ncols t4) (int n + int q) = Inr (n + q)"
    using q by (simp add: tableau_ok_ncols [OF ok4] norm_index_def nat_add_distrib)
  have fin: "t4[p := (t4 ! p)[n + q := 1]] = installed t n p q outcome"
    unfolding r4 by (simp add: t4_def t3_def installed_def Let_def t2_def)
  show ?thesis
    unfolding item_assignments_def Let_def
    unfolding t2_def [symmetric]
    unfolding t3_def [symmetric]
    unfolding t4_def [symmetric]
    by (simp only: nj then_do_simps fin)
qed

lemma random_outcome_ok:
  assumes a: "a < length st" and ok: "tableau_ok n (st ! a)" and b: "bits (st ! a)"
    and q: "q < n" and p: "n \<le> p" "p < 2 * n" and r: "rnd k = 0 \<or> rnd k = 1"
  shows "\<exists>st' a'. random_outcome n rnd (st, a, sample, k) (int q) p
             = Inr (st', a', sample @ [rnd k], k + 1) \<and>
           a' < length st' \<and> tableau_ok n (st' ! a') \<and> bits (st' ! a') \<and>
           (if \<forall>i < 2 * n. st ! a ! i ! q \<noteq> 0 \<longrightarrow> i = p
            then st' = st[a := installed (st ! a) n p q (rnd k)] \<and> a' = a
            else length st \<le> a' \<and> take (length st) st' = st)"
proof -
  define rows where "rows = nonzero (map (\<lambda>i. st ! a ! i ! q) [0..<2 * n])"
  have rows: "set rows = {i. i < 2 * n \<and> st ! a ! i ! q \<noteq> 0}"
    by (auto simp: rows_def set_nonzero)
  then have "\<And>i. i \<in> set rows \<Longrightarrow> i < 2 * n" by simp
  from eliminate_ok [OF a ok b p(2) this] obtain st1 a1 where
    e: "eliminate n p st a rows = Inr (st1, a1)" "a1 < length st1"
      "tableau_ok n (st1 ! a1)" "bits (st1 ! a1)" "take (length st) st1 = st"
      "if \<forall>i \<in> set rows. i = p then st1 = st \<and> a1 = a else length st \<le> a1"
    by blast
  let ?new = "installed (st1 ! a1) n p q (rnd k)"
  have val: "random_outcome n rnd (st, a, sample, k) (int q) p
      = Inr (st1[a1 := ?new], a1, sample @ [rnd k], k + 1)"
    by (simp add: random_outcome_def generator_column [OF ok q] rows_def [symmetric] e(1)
        item_assignments_installed [OF e(3) p q] Let_def)
  have c: "(\<forall>i \<in> set rows. i = p) \<longleftrightarrow> (\<forall>i < 2 * n. st ! a ! i ! q \<noteq> 0 \<longrightarrow> i = p)"
    by (auto simp: rows)
  have "if \<forall>i < 2 * n. st ! a ! i ! q \<noteq> 0 \<longrightarrow> i = p
        then st1[a1 := ?new] = st[a := installed (st ! a) n p q (rnd k)] \<and> a1 = a
        else length st \<le> a1 \<and> take (length st) (st1[a1 := ?new]) = st"
    using e(5,6) unfolding c by (auto split: if_splits)
  with val e(2) install_ok [OF e(3,4) p q r] show ?thesis by simp
qed

lemma determined_outcome_ok:
  assumes a: "a < length st" and ok: "tableau_ok n (st ! a)" and b: "bits (st ! a)"
    and q: "q < n" and stab: "\<And>i. n \<le> i \<Longrightarrow> i < 2 * n \<Longrightarrow> st ! a ! i ! q = 0"
  shows "\<exists>st' a' bit. determined_outcome n (st, a, sample, k) (int q)
             = Inr (st', a', sample @ [bit], k) \<and> (bit = 0 \<or> bit = 1) \<and>
           a' < length st' \<and> tableau_ok n (st' ! a') \<and> bits (st' ! a') \<and>
           take (length st) st' = st[a := (st ! a)[2 * n := replicate (2 * n + 1) 0]]"
proof -
  let ?t = "st ! a"
  note len = tableau_ok_length [OF ok]
  have ne: "?t \<noteq> []" using len by auto
  define t0 where "t0 = ?t[2 * n := replicate (2 * n + 1) 0]"
  have last: "last ?t = ?t ! (2 * n)" using ne len by (simp add: last_conv_nth)
  have t0: "butlast ?t @ [map (\<lambda>v. 0) (last ?t)] = t0"
    using len by (simp add: butlast_snoc_update [OF ne] t0_def last map_replicate_const
        tableau_ok_row [OF ok])
  have ok0: "tableau_ok n t0"
    unfolding t0_def by (rule tableau_ok_update [OF ok]) (simp del: replicate_Suc)
  have b0: "bits t0"
    unfolding t0_def by (rule bits_update [OF b]) (simp add: list_all_iff del: replicate_Suc)
  have same: "t0 ! i = ?t ! i" if "i < 2 * n" for i
    using that by (simp add: t0_def)
  define st0 where "st0 = st[a := t0]"
  have st0: "st0 ! a = t0" "a < length st0" "length st0 = length st"
    using a by (simp_all add: st0_def)
  define rows where
    "rows = nonzero (map (\<lambda>v. if v = 1 then 1 else 0) (map (\<lambda>i. t0 ! i ! q) [0..<2 * n]))"
  have "i < n" if "i \<in> set rows" for i
  proof (rule ccontr)
    assume "\<not> i < n"
    moreover from that have i: "i < 2 * n" "t0 ! i ! q = 1"
      by (auto simp: rows_def set_nonzero split: if_splits)
    ultimately have "?t ! i ! q = 0" using stab by simp
    with i same show False by simp
  qed
  from accumulate_ok [of a st0 n rows] this st0 ok0 b0 obtain st1 a1 where
    acc: "accumulate n st0 a rows = Inr (st1, a1)" "a1 < length st1"
      "tableau_ok n (st1 ! a1)" "bits (st1 ! a1)" "take (length st0) st1 = st0"
    by auto
  let ?bit = "last (last (st1 ! a1))"
  have "last (st1 ! a1) = st1 ! a1 ! (2 * n)"
    using tableau_ok_length [OF acc(3)] by (cases "st1 ! a1 = []") (simp_all add: last_conv_nth)
  moreover have "last (st1 ! a1 ! (2 * n)) = st1 ! a1 ! (2 * n) ! (2 * n)"
    using tableau_ok_row [OF acc(3), of "2 * n"]
    by (cases "st1 ! a1 ! (2 * n) = []") (simp_all add: last_conv_nth)
  ultimately have "?bit = st1 ! a1 ! (2 * n) ! (2 * n)" by simp
  with bitsD [OF acc(3,4), of "2 * n" "2 * n"] have bit: "?bit = 0 \<or> ?bit = 1" by simp
  have "determined_outcome n (st, a, sample, k) (int q) = Inr (st1, a1, sample @ [?bit], k)"
    unfolding determined_outcome_def prod.case Let_def
    unfolding t0 unfolding st0_def [symmetric]
    by (simp add: st0(1) generator_column [OF ok0 q] rows_def [symmetric] acc(1) del: map_map)
  with bit acc show ?thesis by (simp add: st0 st0_def t0_def)
qed

lemma M_step_determined:
  assumes ok: "tableau_ok n (st ! a)" and q: "q < n"
    and stab: "\<And>i. n \<le> i \<Longrightarrow> i < 2 * n \<Longrightarrow> st ! a ! i ! q = 0"
  shows "M_step n rnd (st, a, sample, k) (int q) = determined_outcome n (st, a, sample, k) (int q)"
proof -
  have "nonzero (map (\<lambda>i. st ! a ! (n + i) ! q) [0..<n]) = []"
    using stab by (simp add: nonzero_def filter_empty_conv)
  then show ?thesis
    by (simp add: M_step_def stabilizer_column [OF ok q])
qed

lemma M_step_random:
  assumes ok: "tableau_ok n (st ! a)" and q: "q < n"
    and stab: "\<exists>i. n \<le> i \<and> i < 2 * n \<and> st ! a ! i ! q \<noteq> 0"
  shows "\<exists>p. n \<le> p \<and> p < 2 * n \<and> st ! a ! p ! q \<noteq> 0 \<and>
           M_step n rnd (st, a, sample, k) (int q) = random_outcome n rnd (st, a, sample, k) (int q) p"
proof -
  define xs where "xs = map (\<lambda>i. st ! a ! (n + i) ! q) [0..<n]"
  from stab obtain i where i: "n \<le> i" "i < 2 * n" "st ! a ! i ! q \<noteq> 0" by blast
  then have "i - n \<in> set (nonzero xs)" by (auto simp: set_nonzero xs_def)
  then have ne: "nonzero xs \<noteq> []" by auto
  then have "hd (nonzero xs) \<in> set (nonzero xs)" by simp
  then have h: "hd (nonzero xs) < n" "st ! a ! (n + hd (nonzero xs)) ! q \<noteq> 0"
    by (auto simp: set_nonzero xs_def)
  have "M_step n rnd (st, a, sample, k) (int q)
      = random_outcome n rnd (st, a, sample, k) (int q) (hd (nonzero xs) + n)"
    using ne by (simp add: M_step_def stabilizer_column [OF ok q] xs_def [symmetric] hd_map Let_def)
  with h show ?thesis by (intro exI [of _ "hd (nonzero xs) + n"]) (simp add: add.commute)
qed





section \<open>Measurement: the sample\<close>










section \<open>Measurement: what reaches the caller's array\<close>

lemma then_do_Inr: "then_do m Inr = m"
  by (cases m) simp_all

lemma M_state_single:
  "M_state t [q] n True rnd
     = then_do (M_step n rnd ([t], 0, [], 0) q) (\<lambda>(st, a, sample, k). Inr (st ! 0))"
  by (simp add: M_state_def M_run_def then_do_Inr)

lemma hd_of_take:
  assumes "take (Suc 0) st' = [x]"
  shows "st' ! 0 = x"
proof -
  have "take (Suc 0) st' ! 0 = st' ! 0" by simp
  with assms show ?thesis by simp
qed

lemma installed_row:
  assumes "tableau_ok n t" "n \<le> p" "p < 2 * n" "q < n"
  shows "installed t n p q outcome ! p ! q = 0"
proof -
  have "p < length (t[p - n := t ! p])" using assms by (simp add: tableau_ok_length)
  moreover have "q \<noteq> n + q" "q \<noteq> 2 * n" "q < 2 * n + 1" using assms by simp_all
  ultimately show ?thesis
    by (simp add: installed_def Let_def nth_list_update del: replicate_Suc)
qed

text \<open>
  Claim C10.  A single qubit \<open>q\<close> in \<open>[0, n)\<close> is measured with \<^verbatim>\<open>collapse=True\<close> on the
  caller's binary tableau.  When the outcome is determined (no stabilizer row has an X bit
  at \<open>q\<close>), or when two different generator rows have an X bit at \<open>q\<close> (so that some row
  other than \<open>p\<close> has one), the call does not raise and leaves the rows \<open>0, ..., 2 * n - 1\<close>
  of the caller's array as they were.  When a stabilizer row \<open>p\<close> is the only generator
  row with an X bit at \<open>q\<close>, the caller's array is left as \<^const>\<open>installed\<close> says, and its
  row \<open>p\<close> has changed.
\<close>

theorem collapse_writes_caller_rows:
  assumes "tableau_ok n t" "bits t" "0 \<le> q" "q < int n" "rnd 0 = 0 \<or> rnd 0 = 1"
  shows "((\<forall>i. n \<le> i \<and> i < 2 * n \<longrightarrow> t ! i ! nat q = 0) \<or>
          (\<exists>i < 2 * n. \<exists>j < 2 * n. i \<noteq> j \<and> t ! i ! nat q \<noteq> 0 \<and> t ! j ! nat q \<noteq> 0) \<longrightarrow>
          (\<exists>t'. M_state t [q] n True rnd = Inr t' \<and> take (2 * n) t' = take (2 * n) t)) \<and>
         (\<forall>p. n \<le> p \<and> p < 2 * n \<and> t ! p ! nat q \<noteq> 0 \<and>
               (\<forall>i < 2 * n. t ! i ! nat q \<noteq> 0 \<longrightarrow> i = p) \<longrightarrow>
            M_state t [q] n True rnd = Inr (installed t n p (nat q) (rnd 0)) \<and>
            installed t n p (nat q) (rnd 0) ! p \<noteq> t ! p)"
proof -
  define q' where "q' = nat q"
  with assms have q': "q' < n" "q = int q'" by simp_all
  have inv: "0 < length [t]" "tableau_ok n ([t] ! 0)" "bits ([t] ! 0)"
    using assms by simp_all
  have det: "\<exists>t'. M_state t [q] n True rnd = Inr t' \<and> take (2 * n) t' = take (2 * n) t"
    if stab: "\<And>i. n \<le> i \<Longrightarrow> i < 2 * n \<Longrightarrow> t ! i ! q' = 0"
  proof -
    have stab': "\<And>i. n \<le> i \<Longrightarrow> i < 2 * n \<Longrightarrow> [t] ! 0 ! i ! q' = 0" using stab by simp
    from determined_outcome_ok [where sample = "[]" and k = 0, OF inv q'(1) stab']
    obtain st' a' bit where
      d: "determined_outcome n ([t], 0, [], 0) (int q') = Inr (st', a', [] @ [bit], 0)"
        "take (length [t]) st' = [t][0 := ([t] ! 0)[2 * n := replicate (2 * n + 1) 0]]"
      by blast
    from d(2) have "st' ! 0 = t[2 * n := replicate (2 * n + 1) 0]"
      by (intro hd_of_take) simp
    with d(1) M_step_determined [where rnd = rnd and sample = "[]" and k = 0, OF inv(2) q'(1) stab']
    show ?thesis by (simp add: M_state_single q'(2))
  qed
  have two: "\<exists>t'. M_state t [q] n True rnd = Inr t' \<and> take (2 * n) t' = take (2 * n) t"
    if ran: "\<exists>i. n \<le> i \<and> i < 2 * n \<and> t ! i ! q' \<noteq> 0"
      and ij: "i < 2 * n" "j < 2 * n" "i \<noteq> j" "t ! i ! q' \<noteq> 0" "t ! j ! q' \<noteq> 0" for i j
  proof -
    have ran': "\<exists>i. n \<le> i \<and> i < 2 * n \<and> [t] ! 0 ! i ! q' \<noteq> 0" using ran by simp
    from M_step_random [where rnd = rnd and sample = "[]" and k = 0, OF inv(2) q'(1) ran']
    obtain p where
      p: "n \<le> p" "p < 2 * n"
        "M_step n rnd ([t], 0, [], 0) (int q') = random_outcome n rnd ([t], 0, [], 0) (int q') p"
      by blast
    have not_only: "\<not> (\<forall>i < 2 * n. [t] ! 0 ! i ! q' \<noteq> 0 \<longrightarrow> i = p)"
      using ij by auto
    from random_outcome_ok [where rnd = rnd and sample = "[]" and k = 0, OF inv q'(1) p(1,2) assms(5)]
    obtain st' a' where
      r: "random_outcome n rnd ([t], 0, [], 0) (int q') p = Inr (st', a', [] @ [rnd 0], 0 + 1)"
        "if \<forall>i < 2 * n. [t] ! 0 ! i ! q' \<noteq> 0 \<longrightarrow> i = p
         then st' = [t][0 := installed ([t] ! 0) n p q' (rnd 0)] \<and> a' = 0
         else length [t] \<le> a' \<and> take (length [t]) st' = [t]"
      by blast
    from r(2) not_only have "take (Suc 0) st' = [t]" by (simp split: if_splits)
    then have "st' ! 0 = t" by (rule hd_of_take)
    with r(1) p(3) show ?thesis by (simp add: M_state_single q'(2))
  qed
  have only: "M_state t [q] n True rnd = Inr (installed t n p q' (rnd 0)) \<and>
      installed t n p q' (rnd 0) ! p \<noteq> t ! p"
    if p: "n \<le> p" "p < 2 * n" "t ! p ! q' \<noteq> 0"
      and u: "\<And>i. i < 2 * n \<Longrightarrow> t ! i ! q' \<noteq> 0 \<Longrightarrow> i = p" for p
  proof -
    have ran': "\<exists>i. n \<le> i \<and> i < 2 * n \<and> [t] ! 0 ! i ! q' \<noteq> 0" using p by auto
    from M_step_random [where rnd = rnd and sample = "[]" and k = 0, OF inv(2) q'(1) ran']
    obtain p' where
      p': "n \<le> p'" "p' < 2 * n" "[t] ! 0 ! p' ! q' \<noteq> 0"
        "M_step n rnd ([t], 0, [], 0) (int q') = random_outcome n rnd ([t], 0, [], 0) (int q') p'"
      by blast
    with u [of p'] have e: "p' = p" by simp
    have is_only: "\<forall>i < 2 * n. [t] ! 0 ! i ! q' \<noteq> 0 \<longrightarrow> i = p" using u by simp
    from random_outcome_ok [where rnd = rnd and sample = "[]" and k = 0, OF inv q'(1) p(1,2) assms(5)]
    obtain st' a' where
      r: "random_outcome n rnd ([t], 0, [], 0) (int q') p = Inr (st', a', [] @ [rnd 0], 0 + 1)"
        "if \<forall>i < 2 * n. [t] ! 0 ! i ! q' \<noteq> 0 \<longrightarrow> i = p
         then st' = [t][0 := installed ([t] ! 0) n p q' (rnd 0)] \<and> a' = 0
         else length [t] \<le> a' \<and> take (length [t]) st' = [t]"
      by blast
    from r(2) is_only have "st' ! 0 = installed t n p q' (rnd 0)" by (simp split: if_splits)
    with r(1) p'(4) e have "M_state t [q] n True rnd = Inr (installed t n p q' (rnd 0))"
      by (simp add: M_state_single q'(2))
    moreover have "installed t n p q' (rnd 0) ! p ! q' = 0"
      by (rule installed_row [OF assms(1) p(1,2) q'(1)])
    with p(3) have "installed t n p q' (rnd 0) ! p \<noteq> t ! p" by auto
    ultimately show ?thesis by simp
  qed
  show ?thesis
    unfolding q'_def [symmetric]
  proof (intro conjI impI allI)
    assume "(\<forall>i. n \<le> i \<and> i < 2 * n \<longrightarrow> t ! i ! q' = 0) \<or>
      (\<exists>i < 2 * n. \<exists>j < 2 * n. i \<noteq> j \<and> t ! i ! q' \<noteq> 0 \<and> t ! j ! q' \<noteq> 0)"
    then show "\<exists>t'. M_state t [q] n True rnd = Inr t' \<and> take (2 * n) t' = take (2 * n) t"
    proof (cases "\<forall>i. n \<le> i \<and> i < 2 * n \<longrightarrow> t ! i ! q' = 0")
      case True
      then show ?thesis using det by blast
    next
      case False
      moreover assume "(\<forall>i. n \<le> i \<and> i < 2 * n \<longrightarrow> t ! i ! q' = 0) \<or>
        (\<exists>i < 2 * n. \<exists>j < 2 * n. i \<noteq> j \<and> t ! i ! q' \<noteq> 0 \<and> t ! j ! q' \<noteq> 0)"
      ultimately obtain i j where
        "i < 2 * n" "j < 2 * n" "i \<noteq> j" "t ! i ! q' \<noteq> 0" "t ! j ! q' \<noteq> 0" by blast
      moreover from False have "\<exists>i. n \<le> i \<and> i < 2 * n \<and> t ! i ! q' \<noteq> 0" by blast
      ultimately show ?thesis by (rule two [rotated])
    qed
  next
    fix p
    assume "n \<le> p \<and> p < 2 * n \<and> t ! p ! q' \<noteq> 0 \<and> (\<forall>i < 2 * n. t ! i ! q' \<noteq> 0 \<longrightarrow> i = p)"
    then have "M_state t [q] n True rnd = Inr (installed t n p q' (rnd 0)) \<and>
      installed t n p q' (rnd 0) ! p \<noteq> t ! p"
      using only [of p] by blast
    then show "M_state t [q] n True rnd = Inr (installed t n p q' (rnd 0))"
      and "installed t n p q' (rnd 0) ! p \<noteq> t ! p" by simp_all
  qed
qed

theorem collapse_writes_caller_rows_witness:
  "tableau_ok 1 [[1, 0, 0], [1, 1, 0], [0, 0, 0]] \<and> bits [[1, 0, 0], [1, 1, 0], [0, 0, 0]] \<and>
   (\<exists>t'. M_state [[1, 0, 0], [1, 1, 0], [0, 0, 0]] [0] 1 True all_one = Inr t' \<and>
      take (2 * 1) t' = take (2 * 1) [[1, 0, 0], [1, 1, 0], [0, 0, 0]]) \<and>
   tableau_ok 1 [[0, 1, 0], [1, 0, 0], [0, 0, 0]] \<and> bits [[0, 1, 0], [1, 0, 0], [0, 0, 0]] \<and>
   M_state [[0, 1, 0], [1, 0, 0], [0, 0, 0]] [0] 1 True all_one
     = Inr (installed [[0, 1, 0], [1, 0, 0], [0, 0, 0]] 1 1 (nat 0) (all_one 0)) \<and>
   installed [[0, 1, 0], [1, 0, 0], [0, 0, 0]] 1 1 (nat 0) (all_one 0) ! 1
     \<noteq> [[0, 1, 0], [1, 0, 0], [0, 0, 0]] ! 1"
proof -
  let ?s = "[[1, 0, 0], [1, 1, 0], [0, 0, 0 :: int]]" and ?t = "[[0, 1, 0], [1, 0, 0], [0, 0, 0 :: int]]"
  have ok: "tableau_ok 1 ?s" "tableau_ok 1 ?t" by (simp_all add: tableau_ok_def)
  have b: "bits ?s" "bits ?t" by (simp_all add: bits_def)
  have r: "all_one 0 = 0 \<or> all_one 0 = 1" by (simp add: all_one_def)
  have two: "\<exists>i < 2 * 1. \<exists>j < 2 * 1. i \<noteq> j \<and> ?s ! i ! nat 0 \<noteq> 0 \<and> ?s ! j ! nat 0 \<noteq> 0"
    by (rule exI [of _ 0], simp, rule exI [of _ 1], simp)
  have only: "1 \<le> (1::nat) \<and> (1::nat) < 2 * 1 \<and> ?t ! 1 ! nat 0 \<noteq> 0 \<and>
      (\<forall>i < 2 * 1. ?t ! i ! nat 0 \<noteq> 0 \<longrightarrow> i = 1)"
    by (auto simp: less_2_cases_iff)
  from collapse_writes_caller_rows [where rnd = all_one and q = 0, OF ok(1) b(1) _ _ r]
  have "\<exists>t'. M_state ?s [0] 1 True all_one = Inr t' \<and> take (2 * 1) t' = take (2 * 1) ?s"
    using two by simp
  moreover from collapse_writes_caller_rows [where rnd = all_one and q = 0, OF ok(2) b(2) _ _ r] only
  have "M_state ?t [0] 1 True all_one = Inr (installed ?t 1 1 (nat 0) (all_one 0)) \<and>
      installed ?t 1 1 (nat 0) (all_one 0) ! 1 \<noteq> ?t ! 1"
    by simp
  ultimately show ?thesis using ok b by simp
qed

section \<open>Measurement of the zero state\<close>

lemma zero_state_ok: "tableau_ok n (zero_state n)"
  by (simp add: tableau_ok_def zero_state_def list_all_iff)

lemma zero_state_nth:
  "i < 2 * n + 1 \<Longrightarrow> j < 2 * n + 1 \<Longrightarrow>
     zero_state n ! i ! j = (if i = j \<and> i < 2 * n then 1 else 0)"
  unfolding zero_state_def by (simp del: upt_Suc)

lemma zero_state_bits: "bits (zero_state n)"
  by (rule bitsI [OF zero_state_ok]) (simp add: zero_state_nth)

lemma zero_state_scratch: "zero_state n ! (2 * n) = replicate (2 * n + 1) 0"
  by (rule nth_equalityI)
    (simp_all add: tableau_ok_row [OF zero_state_ok] zero_state_nth del: replicate_Suc)

lemma filter_eq_upt: "q < m \<Longrightarrow> filter (\<lambda>k. k = q) [0..<m] = [q]"
proof (induction m)
  case 0
  then show ?case by simp
next
  case (Suc m)
  show ?case
  proof (cases "q < m")
    case True
    with Suc.IH show ?thesis by simp
  next
    case False
    with Suc.prems have "q = m" by simp
    moreover have "filter (\<lambda>k. k = m) [0..<m] = []" by (simp add: filter_empty_conv)
    ultimately show ?thesis by simp
  qed
qed

lemma g_zero_row: "g (x1, z1) 0 0 = 0"
  by simp

lemma zero_state_determined:
  assumes a: "a < length st" "st ! a = zero_state n" and q: "q < n"
  shows "\<exists>t'. determined_outcome n (st, a, [], 0) (int q) = Inr (st @ [t'], length st, [0], 0) \<and>
           take (2 * n) t' = take (2 * n) (zero_state n)"
proof -
  let ?Z = "zero_state n"
  note ok = zero_state_ok [of n] and b = zero_state_bits [of n]
  note len = tableau_ok_length [OF ok]
  have ne: "?Z \<noteq> []" using len by auto
  have "last ?Z = ?Z ! (2 * n)" using ne len by (simp add: last_conv_nth)
  then have "map (\<lambda>v. 0) (last ?Z) = ?Z ! (2 * n)"
    by (simp add: zero_state_scratch map_replicate_const del: replicate_Suc)
  moreover have "?Z[length ?Z - 1 := ?Z ! (2 * n)] = ?Z" by (simp add: len)
  ultimately have t0: "butlast ?Z @ [map (\<lambda>v. 0) (last ?Z)] = ?Z"
    by (simp only: butlast_snoc_update [OF ne])
  have st0: "st[a := ?Z] = st" using a by (metis list_update_id)
  have col: "map (\<lambda>v. if v = 1 then 1 else 0) (map (\<lambda>i. ?Z ! i ! q) [0..<2 * n])
      = map (\<lambda>i. if i = q then 1 else (0::int)) [0..<2 * n]"
    using q by (simp add: zero_state_nth)
  have rows: "nonzero (map (\<lambda>i. if i = q then 1 else (0::int)) [0..<2 * n]) = [q]"
  proof -
    have "filter (\<lambda>k. map (\<lambda>i. if i = q then 1 else (0::int)) [0..<2 * n] ! k \<noteq> 0) [0..<2 * n]
        = filter (\<lambda>k. k = q) [0..<2 * n]"
      by (rule filter_cong) simp_all
    with q show ?thesis by (simp add: nonzero_def filter_eq_upt)
  qed
  have v: "2 * n < view_rows n True" "q + n < view_rows n True"
    using q by (simp_all add: view_rows_def)
  from rowsum_pointwise [OF ok b v] obtain t' where
    t': "rowsum ?Z (int (2 * n)) (int (q + n)) n True = Inr t'" "tableau_ok n t'"
      "\<And>k. k < 2 * n + 1 \<Longrightarrow> k \<noteq> 2 * n \<Longrightarrow> t' ! k = ?Z ! k"
      "t' ! (2 * n) ! (2 * n) =
         (if (2 * (?Z ! (2 * n) ! (2 * n)) + 2 * (?Z ! (q + n) ! (2 * n))
              + (\<Sum>j = 0..<n. g (?Z ! (q + n) ! j, ?Z ! (q + n) ! (n + j))
                                  (?Z ! (2 * n) ! j) (?Z ! (2 * n) ! (n + j))))
             mod 4 = 0 then 0 else 1)"
    by blast
  have "(\<Sum>j = 0..<n. g (?Z ! (q + n) ! j, ?Z ! (q + n) ! (n + j))
                         (?Z ! (2 * n) ! j) (?Z ! (2 * n) ! (n + j))) = 0"
    by (rule sum.neutral) (simp add: zero_state_nth del: g.simps add: g_zero_row)
  with t'(4) q have ph: "t' ! (2 * n) ! (2 * n) = 0"
    by (simp add: zero_state_nth)
  have "last t' = t' ! (2 * n)"
    using tableau_ok_length [OF t'(2)] by (cases "t' = []") (simp_all add: last_conv_nth)
  moreover have "last (t' ! (2 * n)) = t' ! (2 * n) ! (2 * n)"
    using tableau_ok_row [OF t'(2), of "2 * n"]
    by (cases "t' ! (2 * n) = []") (simp_all add: last_conv_nth)
  ultimately have bit: "last (last t') = 0" using ph by simp
  have rowsZ: "take (2 * n) t' = take (2 * n) ?Z"
    by (rule nth_equalityI) (simp_all add: tableau_ok_length [OF t'(2)] len t'(3))
  have t1: "rowsum ?Z (2 * int n) (int q + int n) n True = Inr t'"
    using t'(1) by simp
  have "determined_outcome n (st, a, [], 0) (int q) = Inr (st @ [t'], length st, [0], 0)"
    unfolding determined_outcome_def prod.case Let_def a(2) t0 st0
    by (simp add: a(2) generator_column [OF ok q] col rows t1 bit del: map_map)
  with rowsZ show ?thesis by blast
qed

text \<open>
  Claim C5.  On the zero state on \<open>n\<close> qubits, measuring one qubit \<open>q\<close> in \<open>[0, n)\<close> with
  \<^const>\<open>M\<close>, with or without \<^verbatim>\<open>collapse\<close> and whatever the random bits, returns the
  outcome 0, leaves the caller's array as it was, and leaves the generator rows of the array
  last bound to \<^verbatim>\<open>state_copy\<close> as they were.
\<close>

theorem zero_state_measurement:
  assumes "0 \<le> q" "q < int n"
  shows "M (zero_state n) [q] n collapse rnd = Inr (List_of_int [0]) \<and>
         M_state (zero_state n) [q] n collapse rnd = Inr (zero_state n) \<and>
         (\<exists>t'. M_state_copy (zero_state n) [q] n collapse rnd = Inr t' \<and>
            take (2 * n) t' = take (2 * n) (zero_state n))"
proof -
  define q' where "q' = nat q"
  with assms have q': "q' < n" "q = int q'" by simp_all
  define st a where "st = (if collapse then [zero_state n] else [zero_state n, zero_state n])"
    and "a = (if collapse then 0 else 1 :: nat)"
  have a: "a < length st" "st ! a = zero_state n" and z: "st ! 0 = zero_state n" "st \<noteq> []"
    by (simp_all add: st_def a_def)
  have run: "M_run (zero_state n) [int q'] n collapse rnd = M_step n rnd (st, a, [], 0) (int q')"
    by (simp add: M_run_def st_def a_def then_do_Inr)
  have stab: "\<And>i. n \<le> i \<Longrightarrow> i < 2 * n \<Longrightarrow> st ! a ! i ! q' = 0"
    using q' by (simp add: a(2) zero_state_nth)
  have ok: "tableau_ok n (st ! a)" by (simp add: a(2) zero_state_ok)
  from zero_state_determined [OF a q'(1)] obtain t' where
    t': "determined_outcome n (st, a, [], 0) (int q') = Inr (st @ [t'], length st, [0], 0)"
      "take (2 * n) t' = take (2 * n) (zero_state n)"
    by blast
  with M_step_determined [where rnd = rnd and sample = "[]" and k = 0, OF ok q'(1) stab]
  have "M_run (zero_state n) [int q'] n collapse rnd = Inr (st @ [t'], length st, [0], 0)"
    by (simp add: run)
  with t'(2) z show ?thesis
    unfolding q'(2) by (simp add: M_def M_state_def M_state_copy_def nth_append)
qed

theorem zero_state_measurement_witness:
  "(0::int) \<le> 1 \<and> (1::int) < int 2 \<and>
   M (zero_state 2) [1] 2 True all_one = Inr (List_of_int [0]) \<and>
   M_state (zero_state 2) [1] 2 True all_one = Inr (zero_state 2)"
  using zero_state_measurement [of 1 2 True all_one] by simp

end
